theory Spec2Isabelle
  imports Complex_Main "HOL-Library.Monad_Syntax"
begin

section \<open>Path fragments (tools/path.utils)\<close>

text \<open>
  The helpers of \<^verbatim>\<open>path.utils\<close> build fragments of an SVG path by template literals:
  \<^verbatim>\<open>down(size) = `v ${size}`\<close>, \<^verbatim>\<open>up(size) = `v -${size}`\<close>,
  \<^verbatim>\<open>leftDownArc(size) = `a ${size} ${size} 0 0 0 -${size} ${size}`\<close> and so on.
  A fragment is modelled by the command it spells, a path string by the list of its
  commands, and string concatenation by \<open>@\<close>. JavaScript numbers are modelled by
  rationals: the program only multiplies module counts by the module size, halves sizes
  and adds offsets. The arc commands always carry the flags \<^verbatim>\<open>0 0 0\<close>, so an arc keeps its
  two radii and its relative end point.
\<close>

datatype cmd =
    MoveTo rat rat
  | MoveBy rat rat
  | Hor rat
  | Ver rat
  | Arc rat rat rat rat

type_synonym path = "cmd list"

definition down :: "rat \<Rightarrow> path" where
  "down sz = [Ver sz]"

definition right :: "rat \<Rightarrow> path" where
  "right sz = [Hor sz]"

definition up :: "rat \<Rightarrow> path" where
  "up sz = [Ver (- sz)]"

definition left :: "rat \<Rightarrow> path" where
  "left sz = [Hor (- sz)]"

definition leftDownArc :: "rat \<Rightarrow> path" where
  "leftDownArc sz = [Arc sz sz (- sz) sz]"

definition upLeftArc :: "rat \<Rightarrow> path" where
  "upLeftArc sz = [Arc sz sz (- sz) (- sz)]"

definition downRightArc :: "rat \<Rightarrow> path" where
  "downRightArc sz = [Arc sz sz sz sz]"

definition rightUpArc :: "rat \<Rightarrow> path" where
  "rightUpArc sz = [Arc sz sz sz (- sz)]"

definition bottomUArc :: "rat \<Rightarrow> path" where
  "bottomUArc sz = [Arc (sz / 2) (sz / 2) sz 0]"

definition rightUArc :: "rat \<Rightarrow> path" where
  "rightUArc sz = [Arc (sz / 2) (sz / 2) 0 (- sz)]"

definition topUArc :: "rat \<Rightarrow> path" where
  "topUArc sz = [Arc (sz / 2) (sz / 2) (- sz) 0]"

definition leftUArc :: "rat \<Rightarrow> path" where
  "leftUArc sz = [Arc (sz / 2) (sz / 2) 0 sz]"

section \<open>The edge-style drawers (core/PathDrawer)\<close>

text \<open>
  \<^verbatim>\<open>PathDrawer\<close> is the square style; \<^verbatim>\<open>ClassyPathDrawer\<close> and
  \<^verbatim>\<open>ClassyRoundedPathDrawer\<close> extend it, \<^verbatim>\<open>RoundedPathDrawer\<close> extends the classy
  drawer and \<^verbatim>\<open>ExtraRoundedPathDrawer\<close> the rounded one. A drawer object is its class
  (the style) and its field \<^verbatim>\<open>size\<close>; each method below dispatches on the class the way the
  overriding chain resolves, and a call \<^verbatim>\<open>this.rightUp()\<close> inside a base method is the
  virtual call on the same drawer.
\<close>

datatype style = Square | Classy | ClassyRounded | Rounded | ExtraRounded

record drawer =
  style :: style
  size_d :: rat

definition drawerFactory :: "style \<Rightarrow> rat \<Rightarrow> drawer" where
  "drawerFactory st sz = \<lparr>style = st, size_d = sz\<rparr>"

definition drawer_right :: "drawer \<Rightarrow> path" where
  "drawer_right d = right (size_d d)"

definition drawer_left :: "drawer \<Rightarrow> path" where
  "drawer_left d = left (size_d d)"

definition drawer_down :: "drawer \<Rightarrow> path" where
  "drawer_down d = down (size_d d)"

definition drawer_up :: "drawer \<Rightarrow> path" where
  "drawer_up d = up (size_d d)"

definition rightUp :: "drawer \<Rightarrow> path" where
  "rightUp d = (case style d of
      Square \<Rightarrow> right (size_d d) @ up (size_d d)
    | Classy \<Rightarrow> right (size_d d / 2) @ rightUpArc (size_d d / 2) @ up (size_d d / 2)
    | ClassyRounded \<Rightarrow> rightUpArc (size_d d)
    | Rounded \<Rightarrow> right (size_d d / 2) @ rightUpArc (size_d d / 2) @ up (size_d d / 2)
    | ExtraRounded \<Rightarrow> rightUpArc (size_d d))"

definition leftDown :: "drawer \<Rightarrow> path" where
  "leftDown d = (case style d of
      Square \<Rightarrow> left (size_d d) @ down (size_d d)
    | Classy \<Rightarrow> left (size_d d / 2) @ leftDownArc (size_d d / 2) @ down (size_d d / 2)
    | ClassyRounded \<Rightarrow> leftDownArc (size_d d)
    | Rounded \<Rightarrow> left (size_d d / 2) @ leftDownArc (size_d d / 2) @ down (size_d d / 2)
    | ExtraRounded \<Rightarrow> leftDownArc (size_d d))"

definition downRight :: "drawer \<Rightarrow> path" where
  "downRight d = (case style d of
      Rounded \<Rightarrow> down (size_d d / 2) @ downRightArc (size_d d / 2) @ right (size_d d / 2)
    | ExtraRounded \<Rightarrow> downRightArc (size_d d)
    | _ \<Rightarrow> down (size_d d) @ right (size_d d))"

definition upLeft :: "drawer \<Rightarrow> path" where
  "upLeft d = (case style d of
      Rounded \<Rightarrow> up (size_d d / 2) @ upLeftArc (size_d d / 2) @ left (size_d d / 2)
    | ExtraRounded \<Rightarrow> upLeftArc (size_d d)
    | _ \<Rightarrow> up (size_d d) @ left (size_d d))"

definition rightU :: "drawer \<Rightarrow> path" where
  "rightU d = (case style d of
      Rounded \<Rightarrow> right (size_d d / 2) @ rightUArc (size_d d) @ left (size_d d / 2)
    | ExtraRounded \<Rightarrow> right (size_d d / 2) @ rightUArc (size_d d) @ left (size_d d / 2)
    | _ \<Rightarrow> rightUp d @ left (size_d d))"

definition leftU :: "drawer \<Rightarrow> path" where
  "leftU d = (case style d of
      Rounded \<Rightarrow> left (size_d d / 2) @ leftUArc (size_d d) @ right (size_d d / 2)
    | ExtraRounded \<Rightarrow> left (size_d d / 2) @ leftUArc (size_d d) @ right (size_d d / 2)
    | _ \<Rightarrow> leftDown d @ right (size_d d))"

definition downU :: "drawer \<Rightarrow> path" where
  "downU d = (case style d of
      Rounded \<Rightarrow> down (size_d d / 2) @ bottomUArc (size_d d) @ up (size_d d / 2)
    | ExtraRounded \<Rightarrow> down (size_d d / 2) @ bottomUArc (size_d d) @ up (size_d d / 2)
    | _ \<Rightarrow> down (size_d d) @ rightUp d)"

definition upU :: "drawer \<Rightarrow> path" where
  "upU d = (case style d of
      Rounded \<Rightarrow> up (size_d d / 2) @ topUArc (size_d d) @ down (size_d d / 2)
    | ExtraRounded \<Rightarrow> up (size_d d / 2) @ topUArc (size_d d) @ down (size_d d / 2)
    | _ \<Rightarrow> up (size_d d) @ leftDown d)"

definition singleDot :: "drawer \<Rightarrow> path" where
  "singleDot d = (case style d of
      ClassyRounded \<Rightarrow>
        [MoveBy (size_d d) 0] @ left (size_d d / 2) @ leftDownArc (size_d d / 2) @
        down (size_d d / 2) @ right (size_d d / 2) @ rightUpArc (size_d d / 2) @
        up (size_d d / 2)
    | Rounded \<Rightarrow> [MoveBy (size_d d / 2) 0] @ leftUArc (size_d d) @ rightUArc (size_d d)
    | ExtraRounded \<Rightarrow> [MoveBy (size_d d / 2) 0] @ leftUArc (size_d d) @ rightUArc (size_d d)
    | _ \<Rightarrow> [MoveBy (size_d d) 0] @ leftDown d @ rightUp d)"

text \<open>
  A direction names the side of the current module from which the walk arrived, or the
  side through which it leaves. \<^verbatim>\<open>getDrawDirections\<close> is a table indexed by the arrival
  side and then by the leaving side; four of its entries are \<^verbatim>\<open>null\<close>.
\<close>

datatype direction = Left | Bottom | Right | Top

fun getDrawDirections :: "drawer \<Rightarrow> direction \<Rightarrow> direction \<Rightarrow> path option" where
  "getDrawDirections d Left Right = Some (drawer_right d)"
| "getDrawDirections d Left Bottom = None"
| "getDrawDirections d Left Left = Some (rightU d)"
| "getDrawDirections d Left Top = Some (rightUp d)"
| "getDrawDirections d Right Right = Some (leftU d)"
| "getDrawDirections d Right Bottom = Some (leftDown d)"
| "getDrawDirections d Right Left = Some (drawer_left d)"
| "getDrawDirections d Right Top = None"
| "getDrawDirections d Top Right = Some (downRight d)"
| "getDrawDirections d Top Bottom = Some (drawer_down d)"
| "getDrawDirections d Top Left = None"
| "getDrawDirections d Top Top = Some (downU d)"
| "getDrawDirections d Bottom Right = None"
| "getDrawDirections d Bottom Bottom = Some (upU d)"
| "getDrawDirections d Bottom Left = Some (upLeft d)"
| "getDrawDirections d Bottom Top = Some (drawer_up d)"

text \<open>
  What the tracer appends for a transition: \<^verbatim>\<open>directions[origin][nextDirection]?.() ?? ""\<close>.
\<close>

definition emitted :: "drawer \<Rightarrow> direction \<Rightarrow> direction \<Rightarrow> path" where
  "emitted d og nd = (case getDrawDirections d og nd of Some glyph \<Rightarrow> glyph | None \<Rightarrow> [])"

section \<open>The contour tracer (QRSVGBuilder.renderComponentToPath)\<close>

text \<open>
  A label map is the array \<^verbatim>\<open>(number | null)[][]\<close>: \<open>None\<close> is \<^verbatim>\<open>null\<close>. Coordinates are
  (row, col) pairs of integers, since the tracer also looks at row and column \<open>-1\<close>.
  \<open>lookup2 a r c\<close> is the guarded read \<^verbatim>\<open>a[r]?.[c]\<close>, with \<open>None\<close> for \<^verbatim>\<open>undefined\<close>;
  \<open>cellAt\<close> is the same read of a label map where only a number counts: the tracer
  compares the cell with \<^verbatim>\<open>=== componentId\<close>, which fails for \<^verbatim>\<open>null\<close> and for
  \<^verbatim>\<open>undefined\<close> alike.
\<close>

type_synonym labelmap = "nat option list list"

type_synonym coord = "int \<times> int"

definition lookup2 :: "'a list list \<Rightarrow> int \<Rightarrow> int \<Rightarrow> 'a option" where
  "lookup2 a r c =
     (if 0 \<le> r \<and> r < int (length a)
      then (let line = a ! nat r
            in if 0 \<le> c \<and> c < int (length line) then Some (line ! nat c) else None)
      else None)"

definition cellAt :: "labelmap \<Rightarrow> int \<Rightarrow> int \<Rightarrow> nat option" where
  "cellAt components r c = (case lookup2 components r c of Some v \<Rightarrow> v | None \<Rightarrow> None)"

text \<open>
  \<^verbatim>\<open>determineNextDirection\<close>: \<^verbatim>\<open>rotationOrder.slice(startIndex).find((_, index) =>
  options[(startIndex + index) % 4])\<close>, with \<^verbatim>\<open>indexOf\<close> giving \<open>-1\<close> for a missing element
  and \<^verbatim>\<open>find\<close> passing the index within the slice.
\<close>

definition rotationOrder :: "direction list" where
  "rotationOrder = [Left, Bottom, Right, Top, Left, Bottom, Right, Top]"

fun indexOf :: "'a list \<Rightarrow> 'a \<Rightarrow> int" where
  "indexOf [] x = - 1"
| "indexOf (y # ys) x =
     (if y = x then 0 else (let i = indexOf ys x in if i < 0 then - 1 else i + 1))"

fun findIndexed :: "('a \<Rightarrow> nat \<Rightarrow> bool) \<Rightarrow> nat \<Rightarrow> 'a list \<Rightarrow> 'a option" where
  "findIndexed P i [] = None"
| "findIndexed P i (x # xs) = (if P x i then Some x else findIndexed P (Suc i) xs)"

definition determineNextDirection ::
  "direction \<Rightarrow> bool \<Rightarrow> bool \<Rightarrow> bool \<Rightarrow> bool \<Rightarrow> direction option" where
  "determineNextDirection og hasLeft hasRight hasTop hasBottom =
     (let startIndex = nat (indexOf rotationOrder og + 1);
          options = [hasLeft, hasBottom, hasRight, hasTop]
      in findIndexed (\<lambda>_ index. options ! ((startIndex + index) mod 4)) 0
           (drop startIndex rotationOrder))"

text \<open>The \<^verbatim>\<open>switch\<close> that moves the current cell, and the table of opposite sides.\<close>

definition advance :: "coord \<Rightarrow> direction \<Rightarrow> coord" where
  "advance cur d = (case d of
      Left \<Rightarrow> (fst cur, snd cur - 1)
    | Bottom \<Rightarrow> (fst cur + 1, snd cur)
    | Right \<Rightarrow> (fst cur, snd cur + 1)
    | Top \<Rightarrow> (fst cur - 1, snd cur))"

definition opposite :: "direction \<Rightarrow> direction" where
  "opposite d = (case d of Top \<Rightarrow> Bottom | Right \<Rightarrow> Left | Bottom \<Rightarrow> Top | Left \<Rightarrow> Right)"

text \<open>
  The variables of the \<^verbatim>\<open>do ... while\<close> loop: \<^verbatim>\<open>current\<close>, \<^verbatim>\<open>origin\<close> and \<^verbatim>\<open>path\<close>. The
  field \<open>moves\<close> is a ghost variable that the source does not have: it records the value of
  \<^verbatim>\<open>nextDirection\<close> of every completed iteration, so that properties of the direction
  sequence can be stated. Nothing is computed from it.
\<close>

record tracer =
  current :: coord
  origin :: direction
  path_t :: path
  moves :: "direction list"

definition nextOf :: "nat \<Rightarrow> labelmap \<Rightarrow> tracer \<Rightarrow> direction option" where
  "nextOf componentId components t =
     (let hasLeft = (cellAt components (fst (current t)) (snd (current t) - 1) = Some componentId);
          hasRight = (cellAt components (fst (current t)) (snd (current t) + 1) = Some componentId);
          hasTop = (cellAt components (fst (current t) - 1) (snd (current t)) = Some componentId);
          hasBottom = (cellAt components (fst (current t) + 1) (snd (current t)) = Some componentId)
      in determineNextDirection (origin t) hasLeft hasRight hasTop hasBottom)"

text \<open>
  One completed iteration: \<^verbatim>\<open>path += directions[origin][nextDirection]?.() ?? ""\<close>, the
  move of \<^verbatim>\<open>current\<close>, and the new \<^verbatim>\<open>origin\<close>.
\<close>

definition moveOn :: "drawer \<Rightarrow> tracer \<Rightarrow> direction \<Rightarrow> tracer" where
  "moveOn drawer t nextDirection =
     \<lparr>current = advance (current t) nextDirection,
      origin = opposite nextDirection,
      path_t = path_t t @ emitted drawer (origin t) nextDirection,
      moves = moves t @ [nextDirection]\<rparr>"

text \<open>
  The loop itself. It has no bound in the source, so it is a partial function: \<open>None\<close>
  means that the loop runs forever. The first branch is the \<^verbatim>\<open>break\<close> after the
  single-dot glyph, the \<^verbatim>\<open>if\<close> is the \<^verbatim>\<open>while\<close> condition.
\<close>

partial_function (option) traceLoop ::
  "drawer \<Rightarrow> nat \<Rightarrow> labelmap \<Rightarrow> coord \<Rightarrow> direction \<Rightarrow> tracer \<Rightarrow> tracer option" where
  "traceLoop drawer componentId components start originalOrigin t =
     (case nextOf componentId components t of
        None \<Rightarrow> Some (t\<lparr>path_t := path_t t @ singleDot drawer\<rparr>)
      | Some nextDirection \<Rightarrow>
          (let t' = moveOn drawer t nextDirection
           in if current t' \<noteq> start \<or> originalOrigin \<noteq> origin t'
              then traceLoop drawer componentId components start originalOrigin t'
              else Some t'))"

declare traceLoop.simps [code]

text \<open>
  The state before the loop: the \<^verbatim>\<open>M\<close> command at the start module and the choice of the
  first \<^verbatim>\<open>origin\<close>. \<open>dotSize\<close> is the field \<^verbatim>\<open>this._dotSize\<close>, \<open>offset\<close> the pair
  \<^verbatim>\<open>(dx, dy)\<close>.
\<close>

definition startTracer ::
  "rat \<Rightarrow> nat \<Rightarrow> labelmap \<Rightarrow> rat \<times> rat \<Rightarrow> coord \<Rightarrow> bool \<Rightarrow> tracer" where
  "startTracer dotSize componentId components offset start moveRight =
     (let path0 = [MoveTo (of_int (snd start) * dotSize + fst offset)
                          (of_int (fst start) * dotSize + snd offset)]
      in if cellAt components (fst start) (snd start + 1) = Some componentId \<and> \<not> moveRight
         then \<lparr>current = start, origin = Right, path_t = path0 @ [MoveBy dotSize 0], moves = []\<rparr>
         else if cellAt components (fst start + 1) (snd start) = Some componentId
         then \<lparr>current = start, origin = Bottom, path_t = path0 @ [MoveBy dotSize dotSize],
               moves = []\<rparr>
         else \<lparr>current = start, origin = Top, path_t = path0, moves = []\<rparr>)"

definition traceContour ::
  "rat \<Rightarrow> nat \<Rightarrow> labelmap \<Rightarrow> rat \<times> rat \<Rightarrow> coord \<Rightarrow> drawer \<Rightarrow> bool \<Rightarrow> tracer option" where
  "traceContour dotSize componentId components offset start drawer moveRight =
     (let t0 = startTracer dotSize componentId components offset start moveRight
      in traceLoop drawer componentId components start (origin t0) t0)"

definition renderComponentToPath ::
  "rat \<Rightarrow> nat \<Rightarrow> labelmap \<Rightarrow> rat \<times> rat \<Rightarrow> coord \<Rightarrow> drawer \<Rightarrow> bool \<Rightarrow> path option" where
  "renderComponentToPath dotSize componentId components offset start drawer moveRight =
     map_option path_t (traceContour dotSize componentId components offset start drawer moveRight)"

section \<open>The shape expander (QRSVGBuilder.expandDotsMaskWithCircle)\<close>

text \<open>
  \<open>isDark\<close> is the query \<^verbatim>\<open>this._qr.isDark\<close> of the symbol encoder, \<open>count\<close> is
  \<^verbatim>\<open>this.moduleCount()\<close>, \<open>roundOn\<close> the option \<^verbatim>\<open>dotsOptions.roundSize\<close>, \<open>width\<close> and
  \<open>height\<close> the fields of \<^verbatim>\<open>this._viewboxSize\<close>, \<open>margin\<close> the option \<^verbatim>\<open>margin\<close> and
  \<open>dotSize\<close> the field \<^verbatim>\<open>this._dotSize\<close> (4 in every run). Numbers are rationals, as
  every floating point number is one; the rounding of the floating point operations is
  not modelled. \<^verbatim>\<open>_roundSize\<close> floors its argument only when the option is set, so the
  padding \<^verbatim>\<open>additionalDots\<close>, the side \<^verbatim>\<open>fakeCount\<close> and \<^verbatim>\<open>center\<close> are fractional in
  general. The loops \<^verbatim>\<open>for (let row = 0; row < fakeCount; row++)\<close> run over the integers
  below \<open>fakeCount\<close>. \<open>lookupNum a x y\<close> is the read \<^verbatim>\<open>a[x]?.[y]\<close> with numbers as
  indices: it is \<^verbatim>\<open>undefined\<close> unless both are integers in range. The
  test \<^verbatim>\<open>Math.sqrt(x) > center\<close> is \<open>sqrtExceeds\<close>. \<open>expandCell\<close> is the body of the inner
  loop, the value stored at \<open>(row, col)\<close>.
\<close>

definition roundSize :: "bool \<Rightarrow> rat \<Rightarrow> rat" where
  "roundSize roundOn v = (if roundOn then of_int \<lfloor>v\<rfloor> else v)"

definition sqrtExceeds :: "rat \<Rightarrow> rat \<Rightarrow> bool" where
  "sqrtExceeds x c \<longleftrightarrow> c < 0 \<or> c * c < x"

definition lookupNum :: "'a list list \<Rightarrow> rat \<Rightarrow> rat \<Rightarrow> 'a option" where
  "lookupNum a x y =
     (if of_int \<lfloor>x\<rfloor> = x \<and> of_int \<lfloor>y\<rfloor> = y then lookup2 a \<lfloor>x\<rfloor> \<lfloor>y\<rfloor> else None)"

definition additionalDotsOf :: "bool \<Rightarrow> rat \<Rightarrow> rat \<Rightarrow> rat \<Rightarrow> rat \<Rightarrow> int \<Rightarrow> rat" where
  "additionalDotsOf roundOn width height margin dotSize count =
     roundSize roundOn (((min width height - margin * 2) / dotSize - of_int count) / 2)"

definition expandCell ::
  "(rat \<Rightarrow> rat \<Rightarrow> bool) \<Rightarrow> int \<Rightarrow> rat \<Rightarrow> rat \<Rightarrow> rat \<Rightarrow> bool list list \<Rightarrow> int \<Rightarrow> int \<Rightarrow> bool"
  where
  "expandCell isDark count additionalDots fakeCount center dotsMask row col =
     (if of_int row \<ge> additionalDots - 1 \<and> of_int row \<le> fakeCount - additionalDots \<and>
         of_int col \<ge> additionalDots - 1 \<and> of_int col \<le> fakeCount - additionalDots
      then (case lookupNum dotsMask (of_int row - additionalDots) (of_int col - additionalDots) of
              Some b \<Rightarrow> b | None \<Rightarrow> False)
      else if sqrtExceeds ((of_int row - center) * (of_int row - center) +
                           (of_int col - center) * (of_int col - center)) center
      then False
      else isDark
             (if of_int col - 2 * additionalDots < 0 then of_int col
              else if col \<ge> count then of_int col - 2 * additionalDots
              else of_int col - additionalDots)
             (if of_int row - 2 * additionalDots < 0 then of_int row
              else if row \<ge> count then of_int row - 2 * additionalDots
              else of_int row - additionalDots))"

definition expandDotsMaskWithCircle ::
  "(rat \<Rightarrow> rat \<Rightarrow> bool) \<Rightarrow> bool \<Rightarrow> rat \<Rightarrow> rat \<Rightarrow> rat \<Rightarrow> rat \<Rightarrow> int \<Rightarrow> bool list list \<Rightarrow>
     bool list list" where
  "expandDotsMaskWithCircle isDark roundOn width height margin dotSize count dotsMask =
     (let additionalDots = additionalDotsOf roundOn width height margin dotSize count;
          fakeCount = of_int count + additionalDots * 2;
          center = roundSize roundOn (fakeCount / 2)
      in map (\<lambda>row. map (\<lambda>col.
             expandCell isDark count additionalDots fakeCount center dotsMask row col)
           [0..\<lceil>fakeCount\<rceil> - 1]) [0..\<lceil>fakeCount\<rceil> - 1])"

section \<open>The region labeler (QRSVGBuilder.buildConnectedComponents)\<close>

text \<open>
  The variables of the first pass. \<^verbatim>\<open>equivalences\<close> is a \<^verbatim>\<open>Map<number, Set<number>>\<close> whose
  values are shared: several keys hold a reference to the same \<^verbatim>\<open>Set\<close> object, and the
  source relies on an \<^verbatim>\<open>add\<close> through one reference being seen through the others. So the
  model has an explicit store: \<open>equivalences\<close> maps an id to the address of its set, and
  \<open>heap\<close> maps an address to the elements of the set in insertion order. \<open>nextAddr\<close> is
  the address that the next \<^verbatim>\<open>new Set\<close> gets.
\<close>

record labeler =
  components :: labelmap
  currentComponent :: nat
  equivalences :: "nat \<rightharpoonup> nat"
  heap :: "nat \<Rightarrow> nat list"
  nextAddr :: nat

text \<open>\<^verbatim>\<open>Set.prototype.add\<close>: a new element goes to the end, a present one changes nothing.\<close>

definition setAdd :: "nat list \<Rightarrow> nat \<Rightarrow> nat list" where
  "setAdd xs x = (if x \<in> set xs then xs else xs @ [x])"

text \<open>
  The body of the innermost loop, for the class at address \<open>a\<close>:
  \<^verbatim>\<open>equivalenceClass.add(equivalenceId); equivalences.set(equivalenceId, equivalenceClass)\<close>.
\<close>

definition absorb :: "nat \<Rightarrow> labeler \<Rightarrow> nat \<Rightarrow> labeler" where
  "absorb a st equivalenceId =
     st\<lparr>heap := (heap st)(a := setAdd (heap st a) equivalenceId),
        equivalences := (equivalences st)(equivalenceId \<mapsto> a)\<rparr>"

text \<open>
  \<^verbatim>\<open>if (!equivalenceClass.has(id)) for (const equivalenceId of equivalences.get(id) ?? [id])\<close>.
  The loop runs over the elements that the set of \<open>id\<close> has when the loop starts. The
  source iterates the live set, which makes no difference: the loop body changes only the
  set at address \<open>a\<close>, and if that is the iterated set itself every element it adds is
  already present.
\<close>

definition mergeId :: "nat \<Rightarrow> labeler \<Rightarrow> nat \<Rightarrow> labeler" where
  "mergeId a st i =
     (if i \<in> set (heap st a) then st
      else foldl (absorb a) st
             (case equivalences st i of Some b \<Rightarrow> heap st b | None \<Rightarrow> [i]))"

text \<open>
  The union step for a cell with several valid ids, after the cell has been assigned:
  \<^verbatim>\<open>if (!equivalences.has(minComponent)) equivalences.set(minComponent, new Set([minComponent]))\<close>
  and the loop over \<^verbatim>\<open>validIds\<close>. \<^verbatim>\<open>Math.min\<close> is applied to at least two numbers here.
\<close>

definition ensureClass :: "nat \<Rightarrow> labeler \<Rightarrow> labeler" where
  "ensureClass minComponent st =
     (if equivalences st minComponent = None
      then st\<lparr>equivalences := (equivalences st)(minComponent \<mapsto> nextAddr st),
              heap := (heap st)(nextAddr st := [minComponent]),
              nextAddr := nextAddr st + 1\<rparr>
      else st)"

definition unionIds :: "nat list \<Rightarrow> labeler \<Rightarrow> labeler" where
  "unionIds validIds st =
     (let minComponent = Min (set validIds);
          st1 = ensureClass minComponent st
      in case equivalences st1 minComponent of
           Some a \<Rightarrow> foldl (mergeId a) st1 validIds
         | None \<Rightarrow> st1)"

text \<open>
  \<^verbatim>\<open>components[row][col] = v\<close>: the scan writes the cell \<open>(row, col)\<close> when row \<open>row\<close> holds
  exactly \<open>col\<close> cells, so the assignment appends to the row.
\<close>

definition putCell :: "nat \<Rightarrow> nat option \<Rightarrow> labeler \<Rightarrow> labeler" where
  "putCell row v st = st\<lparr>components := (components st)[row := components st ! row @ [v]]\<rparr>"

text \<open>
  The ids of the neighbours that have been visited, and the synthetic id 1 of the border
  in the 8-connected pass, filtered by \<^verbatim>\<open>n !== null\<close>. The reads are in range when the
  mask is square (the guard of the top right neighbour compares the column with the
  number of rows); for a ragged mask the source would read \<^verbatim>\<open>undefined\<close>, which the model
  does not represent, so all properties below are stated for square masks, which is what
  every caller passes.
\<close>

definition validIdsAt :: "bool list list \<Rightarrow> nat \<Rightarrow> labelmap \<Rightarrow> nat \<Rightarrow> nat \<Rightarrow> nat list" where
  "validIdsAt dotsMask connectedness comps row col =
     (let isEdge = (col = 0 \<or> row = 0 \<or> col = length (dotsMask ! row) - 1 \<or>
                    row = length dotsMask - 1);
          leftComponent = (if col > 0 then comps ! row ! (col - 1) else None);
          topComponent = (if row > 0 then comps ! (row - 1) ! col else None);
          topLeftComponent =
            (if col > 0 \<and> row > 0 \<and> connectedness = 8 then comps ! (row - 1) ! (col - 1)
             else None);
          topRightComponent =
            (if col < length dotsMask - 1 \<and> row > 0 \<and> connectedness = 8
             then comps ! (row - 1) ! (col + 1) else None)
      in List.map_filter id
           [leftComponent, topComponent, topLeftComponent, topRightComponent,
            if isEdge \<and> connectedness = 8 then Some 1 else None])"

text \<open>The body of the scan for one cell.\<close>

definition visit :: "bool list list \<Rightarrow> bool \<Rightarrow> nat \<Rightarrow> nat \<Rightarrow> labeler \<Rightarrow> nat \<Rightarrow> labeler" where
  "visit dotsMask invert connectedness row st col =
     (if dotsMask ! row ! col = invert then putCell row None st
      else
        let validIds = validIdsAt dotsMask connectedness (components st) row col
        in if length validIds = 0
           then putCell row (Some (currentComponent st + 1))
                  (st\<lparr>currentComponent := currentComponent st + 1\<rparr>)
           else if length validIds = 1 then putCell row (Some (validIds ! 0)) st
           else unionIds validIds (putCell row (Some (Min (set validIds))) st))"

definition scanRow :: "bool list list \<Rightarrow> bool \<Rightarrow> nat \<Rightarrow> labeler \<Rightarrow> nat \<Rightarrow> labeler" where
  "scanRow dotsMask invert connectedness st row =
     foldl (visit dotsMask invert connectedness row)
       (st\<lparr>components := components st @ [[]]\<rparr>) [0..<length (dotsMask ! row)]"

definition initialLabeler :: labeler where
  "initialLabeler =
     \<lparr>components = [], currentComponent = 1, equivalences = Map.empty, heap = (\<lambda>_. []),
      nextAddr = 0\<rparr>"

definition firstPass :: "bool list list \<Rightarrow> bool \<Rightarrow> nat \<Rightarrow> labeler" where
  "firstPass dotsMask invert connectedness =
     foldl (scanRow dotsMask invert connectedness) initialLabeler [0..<length dotsMask]"

text \<open>
  The second pass (``resolve aliases''). Its variables are the label map, rewritten in
  place, and the registry \<^verbatim>\<open>ids\<close>, a \<^verbatim>\<open>Map\<close> that is kept as the list of its entries in
  insertion order. \<open>canonical\<close> is
  \<^verbatim>\<open>Math.min(...Array.from(equivalences.get(value) ?? [value]))\<close>; \<^verbatim>\<open>if (value)\<close> skips
  \<^verbatim>\<open>null\<close> and \<open>0\<close>.
\<close>

definition canonical :: "labeler \<Rightarrow> nat \<Rightarrow> nat" where
  "canonical st v = Min (set (case equivalences st v of Some a \<Rightarrow> heap st a | None \<Rightarrow> [v]))"

type_synonym registry = "(nat \<times> coord) list"

definition resolveCell ::
  "labeler \<Rightarrow> nat \<Rightarrow> labelmap \<times> registry \<Rightarrow> nat \<Rightarrow> labelmap \<times> registry" where
  "resolveCell st row acc col =
     (case fst acc ! row ! col of
        None \<Rightarrow> acc
      | Some v \<Rightarrow>
          if v = 0 then acc
          else
            let i = canonical st v;
                comps = (fst acc)[row := (fst acc ! row)[col := Some i]]
            in (comps,
                if map_of (snd acc) i \<noteq> None then snd acc
                else snd acc @ [(i, (int row, int col))]))"

definition resolveRow :: "labeler \<Rightarrow> labelmap \<times> registry \<Rightarrow> nat \<Rightarrow> labelmap \<times> registry" where
  "resolveRow st acc row = foldl (resolveCell st row) acc [0..<length (fst acc ! row)]"

definition resolve :: "labeler \<Rightarrow> labelmap \<times> registry" where
  "resolve st = foldl (resolveRow st) (components st, []) [0..<length (components st)]"

definition buildConnectedComponents ::
  "bool list list \<Rightarrow> bool \<Rightarrow> nat \<Rightarrow> labelmap \<times> registry" where
  "buildConnectedComponents dotsMask invert connectedness =
     resolve (firstPass dotsMask invert connectedness)"

section \<open>The hole compositor (QRSVGBuilder.drawComponents)\<close>

text \<open>
  A \<^verbatim>\<open>Map\<close> is kept as the list of its entries in insertion order, \<^verbatim>\<open>get\<close> is \<open>map_of\<close>,
  and \<^verbatim>\<open>set\<close> replaces the value of a key that is present and appends a new entry
  otherwise.
\<close>

definition mapSet :: "('k \<times> 'v) list \<Rightarrow> 'k \<Rightarrow> 'v \<Rightarrow> ('k \<times> 'v) list" where
  "mapSet entries k v =
     (if map_of entries k = None then entries @ [(k, v)]
      else map (\<lambda>e. if fst e = k then (k, v) else e) entries)"

text \<open>
  \<^verbatim>\<open>components[startPosition.row][startPosition.col - 1]\<close> as the test
  \<^verbatim>\<open>!surroundingComponent\<close> sees it: \<^verbatim>\<open>undefined\<close> (a column out of range), \<^verbatim>\<open>null\<close> and \<open>0\<close>
  are falsy.
\<close>

definition surroundingOf :: "labelmap \<Rightarrow> coord \<Rightarrow> nat option" where
  "surroundingOf comps startPosition =
     (case cellAt comps (fst startPosition) (snd startPosition - 1) of
        None \<Rightarrow> None
      | Some v \<Rightarrow> if v = 0 then None else Some v)"

text \<open>
  The body of \<^verbatim>\<open>backgroundIds.forEach\<close>: the early return, the creation of the array of the
  surrounding component, and the \<^verbatim>\<open>push\<close> onto it.
\<close>

definition registerHole ::
  "labelmap \<Rightarrow> (nat \<times> nat list) list \<Rightarrow> nat \<times> coord \<Rightarrow> (nat \<times> nat list) list" where
  "registerHole comps backgroundPathsForComponent entry =
     (case surroundingOf comps (snd entry) of
        None \<Rightarrow> backgroundPathsForComponent
      | Some surroundingComponent \<Rightarrow>
          if fst entry \<le> 1 then backgroundPathsForComponent
          else
            let holes1 = (if map_of backgroundPathsForComponent surroundingComponent = None
                          then mapSet backgroundPathsForComponent surroundingComponent []
                          else backgroundPathsForComponent)
            in map (\<lambda>e. if fst e = surroundingComponent then (fst e, snd e @ [fst entry]) else e)
                 holes1)"

text \<open>
  The loops of \<^verbatim>\<open>drawComponents\<close>. The result \<open>None\<close> means that the call does not return:
  a contour walk does not end, or a \<^verbatim>\<open>TypeError\<close> is thrown, which happens when the row of a
  start position is not a row of the label map (\<^verbatim>\<open>components[startPosition.row]\<close> is
  \<^verbatim>\<open>undefined\<close>) or when \<^verbatim>\<open>backgroundIds.get\<close> finds no entry.
\<close>

fun registerHoles ::
  "labelmap \<Rightarrow> (nat \<times> coord) list \<Rightarrow> (nat \<times> nat list) list \<Rightarrow> (nat \<times> nat list) list option"
  where
  "registerHoles comps [] holes = Some holes"
| "registerHoles comps (entry # rest) holes =
     (if fst (snd entry) < 0 \<or> int (length comps) \<le> fst (snd entry) then None
      else registerHoles comps rest (registerHole comps holes entry))"

fun renderAll ::
  "rat \<Rightarrow> labelmap \<Rightarrow> rat \<times> rat \<Rightarrow> drawer \<Rightarrow> (nat \<times> coord) list \<Rightarrow> (nat \<times> path) list \<Rightarrow>
   (nat \<times> path) list option" where
  "renderAll dotSize comps offset drawer [] paths = Some paths"
| "renderAll dotSize comps offset drawer (entry # rest) paths =
     (case renderComponentToPath dotSize (fst entry) comps offset (snd entry) drawer False of
        None \<Rightarrow> None
      | Some path \<Rightarrow> renderAll dotSize comps offset drawer rest (mapSet paths (fst entry) path))"

fun appendHoles ::
  "rat \<Rightarrow> labelmap \<Rightarrow> rat \<times> rat \<Rightarrow> drawer \<Rightarrow> (nat \<times> coord) list \<Rightarrow> nat \<Rightarrow> nat list \<Rightarrow> path \<Rightarrow>
   path option" where
  "appendHoles dotSize comps offset drawer backgroundIds i [] fullPath = Some fullPath"
| "appendHoles dotSize comps offset drawer backgroundIds i (backgroundPathId # rest) fullPath =
     (case map_of backgroundIds backgroundPathId of
        None \<Rightarrow> None
      | Some start \<Rightarrow>
          (case renderComponentToPath dotSize i comps offset (fst start - 1, snd start - 1)
                  drawer True of
             None \<Rightarrow> None
           | Some p \<Rightarrow>
               appendHoles dotSize comps offset drawer backgroundIds i rest (fullPath @ p)))"

text \<open>
  The last loop makes one \<^verbatim>\<open>path\<close> element for every entry of \<^verbatim>\<open>paths\<close>; the model keeps
  the id and the attribute \<^verbatim>\<open>d\<close> of each.
\<close>

fun emitAll ::
  "rat \<Rightarrow> labelmap \<Rightarrow> rat \<times> rat \<Rightarrow> drawer \<Rightarrow> (nat \<times> coord) list \<Rightarrow> (nat \<times> nat list) list \<Rightarrow>
   (nat \<times> path) list \<Rightarrow> (nat \<times> path) list option" where
  "emitAll dotSize comps offset drawer backgroundIds holes [] = Some []"
| "emitAll dotSize comps offset drawer backgroundIds holes (entry # rest) =
     (case appendHoles dotSize comps offset drawer backgroundIds (fst entry)
             (case map_of holes (fst entry) of None \<Rightarrow> [] | Some backgroundPaths \<Rightarrow> backgroundPaths)
             (snd entry) of
        None \<Rightarrow> None
      | Some fullPath \<Rightarrow>
          (case emitAll dotSize comps offset drawer backgroundIds holes rest of
             None \<Rightarrow> None
           | Some elements \<Rightarrow> Some ((fst entry, fullPath) # elements)))"

definition drawComponents ::
  "rat \<Rightarrow> bool list list \<Rightarrow> rat \<times> rat \<Rightarrow> drawer \<Rightarrow> (nat \<times> path) list option" where
  "drawComponents dotSize dotsMask offset drawer =
     (let comps = fst (buildConnectedComponents dotsMask False 4);
          ids = snd (buildConnectedComponents dotsMask False 4);
          backgroundIds = snd (buildConnectedComponents dotsMask True 8)
      in case renderAll dotSize comps offset drawer ids [] of
           None \<Rightarrow> None
         | Some paths \<Rightarrow>
             (case registerHoles comps backgroundIds [] of
                None \<Rightarrow> None
              | Some backgroundPathsForComponent \<Rightarrow>
                  emitAll dotSize comps offset drawer backgroundIds backgroundPathsForComponent
                    paths))"

text \<open>
  The compositor as the specification words it: a background component is a hole when
  its id is greater than 1 and the foreground label map holds an id on the left of its
  start; the holes of a foreground component are those whose left neighbour holds its
  id; and the path of a foreground component is its own contour followed by the contours
  of its holes, each traced from the start of the hole moved one cell up and one cell to
  the left. All other background components contribute nothing.
\<close>

definition isHole :: "labelmap \<Rightarrow> nat \<times> coord \<Rightarrow> bool" where
  "isHole comps entry \<longleftrightarrow>
     1 < fst entry \<and> cellAt comps (fst (snd entry)) (snd (snd entry) - 1) \<noteq> None"

definition holesOf :: "labelmap \<Rightarrow> (nat \<times> coord) list \<Rightarrow> nat \<Rightarrow> (nat \<times> coord) list" where
  "holesOf comps backgroundIds i =
     filter (\<lambda>entry. isHole comps entry \<and>
                      cellAt comps (fst (snd entry)) (snd (snd entry) - 1) = Some i)
       backgroundIds"

fun sequence :: "'a option list \<Rightarrow> 'a list option" where
  "sequence [] = Some []"
| "sequence (None # rest) = None"
| "sequence (Some x # rest) = (case sequence rest of None \<Rightarrow> None | Some xs \<Rightarrow> Some (x # xs))"

definition composedPath ::
  "rat \<Rightarrow> labelmap \<Rightarrow> rat \<times> rat \<Rightarrow> drawer \<Rightarrow> (nat \<times> coord) list \<Rightarrow> nat \<times> coord \<Rightarrow>
   (nat \<times> path) option" where
  "composedPath dotSize comps offset drawer backgroundIds entry =
     (case renderComponentToPath dotSize (fst entry) comps offset (snd entry) drawer False of
        None \<Rightarrow> None
      | Some own \<Rightarrow>
          (case sequence
                  (map (\<lambda>hole. renderComponentToPath dotSize (fst entry) comps offset
                                 (fst (snd hole) - 1, snd (snd hole) - 1) drawer True)
                     (holesOf comps backgroundIds (fst entry))) of
             None \<Rightarrow> None
           | Some contours \<Rightarrow> Some (fst entry, own @ concat contours)))"

section \<open>Notions used to state the properties\<close>

text \<open>A square array of side \<open>n\<close>: \<open>n\<close> rows of \<open>n\<close> cells.\<close>

definition square :: "'a list list \<Rightarrow> nat \<Rightarrow> bool" where
  "square a n \<longleftrightarrow> length a = n \<and> list_all (\<lambda>line. length line = n) a"

text \<open>
  The circular order left, bottom, right, top: \<open>rot\<close> is the successor in it, and
  \<open>searchOrder og\<close> lists the four sides starting just after \<open>og\<close>, wrapping around.
\<close>

fun rot :: "direction \<Rightarrow> direction" where
  "rot Left = Bottom"
| "rot Bottom = Right"
| "rot Right = Top"
| "rot Top = Left"

fun searchOrder :: "direction \<Rightarrow> direction list" where
  "searchOrder Left = [Bottom, Right, Top, Left]"
| "searchOrder Bottom = [Right, Top, Left, Bottom]"
| "searchOrder Right = [Top, Left, Bottom, Right]"
| "searchOrder Top = [Left, Bottom, Right, Top]"

text \<open>
  The neighbour of a cell on a side, and membership of a cell in a component: the cell
  lies in the label map and holds the component id. \<open>hasDir\<close>: the neighbour of \<open>p\<close>
  on side \<open>d\<close> belongs to the component. These are stated on the label map directly,
  not through the reads of the model.
\<close>

fun neighbour :: "coord \<Rightarrow> direction \<Rightarrow> coord" where
  "neighbour (r, c) Left = (r, c - 1)"
| "neighbour (r, c) Bottom = (r + 1, c)"
| "neighbour (r, c) Right = (r, c + 1)"
| "neighbour (r, c) Top = (r - 1, c)"

definition inComponent :: "nat \<Rightarrow> labelmap \<Rightarrow> coord \<Rightarrow> bool" where
  "inComponent componentId comps p \<longleftrightarrow>
     0 \<le> fst p \<and> fst p < int (length comps) \<and>
     0 \<le> snd p \<and> snd p < int (length (comps ! nat (fst p))) \<and>
     comps ! nat (fst p) ! nat (snd p) = Some componentId"

definition hasDir :: "nat \<Rightarrow> labelmap \<Rightarrow> coord \<Rightarrow> direction \<Rightarrow> bool" where
  "hasDir componentId comps p d = inComponent componentId comps (neighbour p d)"

text \<open>Net displacement of a direction sequence, in rows and in columns, one module per step.\<close>

definition netRows :: "direction list \<Rightarrow> int" where
  "netRows ds = sum_list (map (\<lambda>d. fst (advance (0, 0) d)) ds)"

definition netCols :: "direction list \<Rightarrow> int" where
  "netCols ds = sum_list (map (\<lambda>d. snd (advance (0, 0) d)) ds)"

definition closedWalk :: "coord \<Rightarrow> direction \<Rightarrow> tracer \<Rightarrow> bool" where
  "closedWalk start originalOrigin t \<longleftrightarrow>
     current t = start \<and> origin t = originalOrigin \<and>
     netRows (moves t) = 0 \<and> netCols (moves t) = 0"

text \<open>The invariant of the walk: the current cell is in the component, the ghost sequence
  accounts for its position, and the side of arrival leads back into the component.\<close>

definition walkInv :: "nat \<Rightarrow> labelmap \<Rightarrow> coord \<Rightarrow> direction \<Rightarrow> tracer \<Rightarrow> bool" where
  "walkInv componentId comps start originalOrigin t \<longleftrightarrow>
     cellAt comps (fst (current t)) (snd (current t)) = Some componentId \<and>
     fst (current t) = fst start + netRows (moves t) \<and>
     snd (current t) = snd start + netCols (moves t) \<and>
     ((moves t = [] \<and> current t = start \<and> origin t = originalOrigin) \<or>
      hasDir componentId comps (current t) (origin t))"

text \<open>The pen displacement of a path fragment made of relative commands.\<close>

fun cmdDelta :: "cmd \<Rightarrow> rat \<times> rat" where
  "cmdDelta (MoveTo x y) = (0, 0)"
| "cmdDelta (MoveBy dx dy) = (dx, dy)"
| "cmdDelta (Hor dx) = (dx, 0)"
| "cmdDelta (Ver dy) = (0, dy)"
| "cmdDelta (Arc rx ry dx dy) = (dx, dy)"

definition penDelta :: "path \<Rightarrow> rat \<times> rat" where
  "penDelta g = (sum_list (map (fst \<circ> cmdDelta) g), sum_list (map (snd \<circ> cmdDelta) g))"

text \<open>The unit step of a side as a pen displacement (x to the right, y downwards).\<close>

definition unitOf :: "direction \<Rightarrow> rat \<times> rat" where
  "unitOf d = (case d of Left \<Rightarrow> (- 1, 0) | Bottom \<Rightarrow> (0, 1) | Right \<Rightarrow> (1, 0) | Top \<Rightarrow> (0, - 1))"

text \<open>The class of a transition: arrival side \<open>og\<close>, leaving side \<open>nd\<close>.\<close>

datatype transition = Silent | Straight | Turn | UTurn

definition classify :: "direction \<Rightarrow> direction \<Rightarrow> transition" where
  "classify og nd =
     (if nd = rot og then Silent
      else if nd = opposite og then Straight
      else if nd = og then UTurn
      else Turn)"

definition classDelta :: "direction \<Rightarrow> direction \<Rightarrow> rat \<times> rat" where
  "classDelta og nd = (case classify og nd of
      Silent \<Rightarrow> (0, 0)
    | Straight \<Rightarrow> unitOf nd
    | Turn \<Rightarrow> (fst (unitOf (opposite og)) + fst (unitOf nd),
               snd (unitOf (opposite og)) + snd (unitOf nd))
    | UTurn \<Rightarrow> unitOf (rot (rot (rot og))))"

definition allDirections :: "direction list" where
  "allDirections = [Left, Bottom, Right, Top]"

definition transitionsOf :: "transition \<Rightarrow> (direction \<times> direction) list" where
  "transitionsOf k = filter (\<lambda>(og, nd). classify og nd = k) (List.product allDirections allDirections)"

definition isLine :: "cmd \<Rightarrow> bool" where
  "isLine c = (case c of Hor _ \<Rightarrow> True | Ver _ \<Rightarrow> True | _ \<Rightarrow> False)"

definition isArc :: "cmd \<Rightarrow> bool" where
  "isArc c = (case c of Arc _ _ _ _ \<Rightarrow> True | _ \<Rightarrow> False)"

section \<open>Notions used to state the properties of the labeler\<close>

text \<open>
  The equivalence class of an id in a state of the first pass, as the source reads it
  (\<^verbatim>\<open>equivalences.get(id) ?? [id]\<close>), and the invariant of the store: a key is an element
  of the set it refers to, and every element of a set that some key refers to refers to the
  same set. \<open>joined f U\<close> is the family of classes \<open>f\<close> after the classes that make up
  \<open>U\<close> have been merged.
\<close>

definition cls :: "labeler \<Rightarrow> nat \<Rightarrow> nat set" where
  "cls st k = set (case equivalences st k of Some a \<Rightarrow> heap st a | None \<Rightarrow> [k])"

definition eqInv :: "labeler \<Rightarrow> bool" where
  "eqInv st \<longleftrightarrow>
     (\<forall>k a. equivalences st k = Some a \<longrightarrow>
        a < nextAddr st \<and> k \<in> set (heap st a) \<and>
        (\<forall>e \<in> set (heap st a). equivalences st e = Some a))"

definition joined :: "(nat \<Rightarrow> nat set) \<Rightarrow> nat set \<Rightarrow> nat \<Rightarrow> nat set" where
  "joined f U x = (if x \<in> U then U else f x)"

text \<open>
  Cells of the grid, the cells that a pass labels (those that differ from \<open>invert\<close>),
  adjacency for the connectedness of the pass (any value other than 8 behaves as 4, as
  in the source), and connection by a chain of adjacent labelled cells.
\<close>

type_synonym cell = "nat \<times> nat"

definition inGrid :: "nat \<Rightarrow> cell \<Rightarrow> bool" where
  "inGrid n p \<longleftrightarrow> fst p < n \<and> snd p < n"

definition labelled :: "bool list list \<Rightarrow> bool \<Rightarrow> cell \<Rightarrow> bool" where
  "labelled dotsMask invert p \<longleftrightarrow> dotsMask ! fst p ! snd p \<noteq> invert"

definition adjacent :: "nat \<Rightarrow> cell \<Rightarrow> cell \<Rightarrow> bool" where
  "adjacent connectedness p q \<longleftrightarrow>
     p \<noteq> q \<and> fst p \<le> fst q + 1 \<and> fst q \<le> fst p + 1 \<and>
     snd p \<le> snd q + 1 \<and> snd q \<le> snd p + 1 \<and>
     (connectedness = 8 \<or> fst p = fst q \<or> snd p = snd q)"

definition link :: "bool list list \<Rightarrow> bool \<Rightarrow> nat \<Rightarrow> cell \<Rightarrow> cell \<Rightarrow> bool" where
  "link dotsMask invert connectedness p q \<longleftrightarrow>
     inGrid (length dotsMask) p \<and> inGrid (length dotsMask) q \<and>
     labelled dotsMask invert p \<and> labelled dotsMask invert q \<and>
     adjacent connectedness p q"

definition connected :: "bool list list \<Rightarrow> bool \<Rightarrow> nat \<Rightarrow> cell \<Rightarrow> cell \<Rightarrow> bool" where
  "connected dotsMask invert connectedness = (link dotsMask invert connectedness)\<^sup>*\<^sup>*"

definition onBorder :: "nat \<Rightarrow> cell \<Rightarrow> bool" where
  "onBorder n p \<longleftrightarrow> fst p = 0 \<or> snd p = 0 \<or> fst p = n - 1 \<or> snd p = n - 1"

definition touchesBorder :: "bool list list \<Rightarrow> bool \<Rightarrow> nat \<Rightarrow> cell \<Rightarrow> bool" where
  "touchesBorder dotsMask invert connectedness p \<longleftrightarrow>
     (\<exists>e. inGrid (length dotsMask) e \<and> labelled dotsMask invert e \<and>
          onBorder (length dotsMask) e \<and> connected dotsMask invert connectedness p e)"

text \<open>
  What the ids of a pass can tell apart: two cells are \<open>linked\<close> when they are connected
  or, in the 8-connected pass, when both are connected to the border.
\<close>

definition linked :: "bool list list \<Rightarrow> bool \<Rightarrow> nat \<Rightarrow> cell \<Rightarrow> cell \<Rightarrow> bool" where
  "linked dotsMask invert connectedness p q \<longleftrightarrow>
     connected dotsMask invert connectedness p q \<or>
     (connectedness = 8 \<and> touchesBorder dotsMask invert connectedness p \<and>
      touchesBorder dotsMask invert connectedness q)"

text \<open>
  The state of the scan just before the cell \<open>(row, col)\<close>: the shape of the label map,
  the cells visited so far, and the invariant that relates their provisional labels and
  the equivalence store to the mask.
\<close>

definition scanShape :: "nat \<Rightarrow> nat \<Rightarrow> nat \<Rightarrow> labeler \<Rightarrow> bool" where
  "scanShape n row col st \<longleftrightarrow>
     length (components st) = row + 1 \<and>
     (\<forall>r < row. length (components st ! r) = n) \<and>
     length (components st ! row) = col"

definition visited :: "nat \<Rightarrow> nat \<Rightarrow> nat \<Rightarrow> cell \<Rightarrow> bool" where
  "visited n row col p \<longleftrightarrow> inGrid n p \<and> (fst p < row \<or> (fst p = row \<and> snd p < col))"

definition labelOf :: "labeler \<Rightarrow> cell \<Rightarrow> nat option" where
  "labelOf st p = components st ! fst p ! snd p"

definition scanInv :: "bool list list \<Rightarrow> bool \<Rightarrow> nat \<Rightarrow> (cell \<Rightarrow> bool) \<Rightarrow> labeler \<Rightarrow> bool" where
  "scanInv dotsMask invert connectedness vis st \<longleftrightarrow>
     eqInv st \<and> 1 \<le> currentComponent st \<and>
     (\<forall>k. k \<in> dom (equivalences st) \<longrightarrow> 1 \<le> k \<and> k \<le> currentComponent st) \<and>
     (\<forall>p. vis p \<longrightarrow> (labelOf st p = None \<longleftrightarrow> \<not> labelled dotsMask invert p)) \<and>
     (\<forall>p l. vis p \<longrightarrow> labelOf st p = Some l \<longrightarrow> 1 \<le> l \<and> l \<le> currentComponent st) \<and>
     (\<forall>p. vis p \<longrightarrow> labelled dotsMask invert p \<longrightarrow> onBorder (length dotsMask) p \<longrightarrow>
          connectedness = 8 \<longrightarrow> labelOf st p = Some 1) \<and>
     (\<forall>p q l l'. vis p \<longrightarrow> vis q \<longrightarrow> labelOf st p = Some l \<longrightarrow> labelOf st q = Some l' \<longrightarrow>
          adjacent connectedness p q \<longrightarrow> l' \<in> cls st l) \<and>
     (\<forall>p q l l'. vis p \<longrightarrow> vis q \<longrightarrow> labelOf st p = Some l \<longrightarrow> labelOf st q = Some l' \<longrightarrow>
          l' \<in> cls st l \<longrightarrow> linked dotsMask invert connectedness p q) \<and>
     (\<forall>p l. vis p \<longrightarrow> labelOf st p = Some l \<longrightarrow> 1 \<in> cls st l \<longrightarrow>
          connectedness = 8 \<and> touchesBorder dotsMask invert connectedness p)"

text \<open>The shape of the label map between two rows of the scan.\<close>

definition rowsShape :: "nat \<Rightarrow> nat \<Rightarrow> labeler \<Rightarrow> bool" where
  "rowsShape n row st \<longleftrightarrow>
     length (components st) = row \<and> (\<forall>r < row. length (components st ! r) = n)"

text \<open>
  The second pass: the label that a cell holds in the end, the raster order of the cells,
  and the invariant of the pass when the cells \<open>vis\<close> have been rewritten. The registry
  holds one entry for every final id met so far, at the first cell that has it.
\<close>

definition finalLabel :: "labeler \<Rightarrow> cell \<Rightarrow> nat option" where
  "finalLabel st p = map_option (canonical st) (labelOf st p)"

definition rasterLe :: "cell \<Rightarrow> cell \<Rightarrow> bool" where
  "rasterLe p q \<longleftrightarrow> fst p < fst q \<or> (fst p = fst q \<and> snd p \<le> snd q)"

definition firstWith :: "nat \<Rightarrow> labelmap \<Rightarrow> nat \<Rightarrow> cell \<Rightarrow> bool" where
  "firstWith n comps i q \<longleftrightarrow>
     inGrid n q \<and> comps ! fst q ! snd q = Some i \<and>
     (\<forall>q'. inGrid n q' \<longrightarrow> comps ! fst q' ! snd q' = Some i \<longrightarrow> rasterLe q q')"

definition resolveInv :: "labeler \<Rightarrow> nat \<Rightarrow> (cell \<Rightarrow> bool) \<Rightarrow> labelmap \<times> registry \<Rightarrow> bool" where
  "resolveInv st n vis acc \<longleftrightarrow>
     length (fst acc) = n \<and> (\<forall>r < n. length (fst acc ! r) = n) \<and>
     (\<forall>p. inGrid n p \<longrightarrow>
        fst acc ! fst p ! snd p = (if vis p then finalLabel st p else labelOf st p)) \<and>
     distinct (map fst (snd acc)) \<and>
     (\<forall>i x. (i, x) \<in> set (snd acc) \<longrightarrow>
        (\<exists>q. x = (int (fst q), int (snd q)) \<and> vis q \<and> finalLabel st q = Some i \<and>
             (\<forall>q'. vis q' \<longrightarrow> finalLabel st q' = Some i \<longrightarrow> rasterLe q q'))) \<and>
     (\<forall>q i. vis q \<longrightarrow> finalLabel st q = Some i \<longrightarrow> i \<in> fst ` set (snd acc))"

text \<open>
  The state of the first pass just before it visits the cell \<open>(row, col)\<close>: the rows before
  \<open>row\<close> have been scanned, the new row has been started, and the cells before \<open>col\<close>
  have been visited.
\<close>

definition scanState :: "bool list list \<Rightarrow> bool \<Rightarrow> nat \<Rightarrow> nat \<Rightarrow> nat \<Rightarrow> labeler" where
  "scanState dotsMask invert connectedness row col =
     (let st = foldl (scanRow dotsMask invert connectedness) initialLabeler [0..<row]
      in foldl (visit dotsMask invert connectedness row)
           (st\<lparr>components := components st @ [[]]\<rparr>) [0..<col])"

section \<open>Properties of the drawers\<close>

lemmas fragment_defs =
  down_def right_def up_def left_def leftDownArc_def upLeftArc_def downRightArc_def
  rightUpArc_def bottomUArc_def rightUArc_def topUArc_def leftUArc_def

lemmas method_defs =
  drawer_right_def drawer_left_def drawer_down_def drawer_up_def rightUp_def leftDown_def
  downRight_def upLeft_def rightU_def leftU_def downU_def upU_def singleDot_def

lemma getDrawDirections_None_iff:
  "getDrawDirections d og nd = None \<longleftrightarrow> nd = rot og"
  by (cases og; cases nd) simp_all

lemma emitted_empty_iff: "emitted d og nd = [] \<longleftrightarrow> nd = rot og"
  by (cases og; cases nd; cases "style d")
     (simp_all add: emitted_def method_defs fragment_defs)

lemma classify_Silent_iff: "classify og nd = Silent \<longleftrightarrow> nd = rot og"
  by (cases og; cases nd) (simp_all add: classify_def opposite_def)

lemma penDelta_emitted:
  "penDelta (emitted d og nd) =
     (size_d d * fst (classDelta og nd), size_d d * snd (classDelta og nd))"
  by (cases og; cases nd; cases "style d")
     (simp_all add: emitted_def method_defs fragment_defs penDelta_def classDelta_def
        classify_def opposite_def unitOf_def)

lemma transition_counts:
  "length (transitionsOf Silent) = 4" "length (transitionsOf Straight) = 4"
  "length (transitionsOf Turn) = 4" "length (transitionsOf UTurn) = 4"
  by (simp_all add: transitionsOf_def allDirections_def classify_def opposite_def)

lemma singleDot_nonempty: "singleDot d \<noteq> []"
  by (cases "style d") (simp_all add: singleDot_def)

text \<open>
  C7, as the claim states it, fails: the claim says that each of the sixteen combinations
  of arrival and leaving side, and in particular each of the eight 90 degree turns, has a
  drawing output. For the square drawer of module size 4, the turn that arrives from the
  left and leaves through the bottom is a \<^verbatim>\<open>null\<close> entry of the table, and the tracer
  appends the empty string for it.
\<close>

theorem C7_silent_turn_counterexample:
  "getDrawDirections (drawerFactory Square 4) Left Bottom = None \<and>
   emitted (drawerFactory Square 4) Left Bottom = [] \<and>
   classify Left Bottom \<noteq> Straight \<and> classify Left Bottom \<noteq> UTurn"
  by (simp add: emitted_def classify_def opposite_def)

text \<open>
  C7, amended: for every drawer (each of the five styles, any module size) the table has
  output for twelve of the sixteen combinations of arrival side \<open>og\<close> and leaving side
  \<open>nd\<close>: four straight continuations, four 90 degree turns and four U-turns, plus the
  single-dot glyph. The remaining four combinations are the 90 degree turns whose leaving
  side directly follows the arrival side in the circular order left, bottom, right, top;
  they are \<^verbatim>\<open>null\<close> and the tracer appends nothing for them. Every glyph moves the pen by
  the module size along the sides it passes: one side for a straight continuation, two
  perpendicular sides for a turn, and a net of one side for a U-turn.
\<close>

theorem C7_twelve_of_sixteen_transitions:
  "(getDrawDirections d og nd = None) = (classify og nd = Silent) \<and>
   (emitted d og nd = []) = (classify og nd = Silent) \<and>
   (classify og nd = Silent) = (nd = rot og) \<and>
   penDelta (emitted d og nd) =
     (size_d d * fst (classDelta og nd), size_d d * snd (classDelta og nd)) \<and>
   length (transitionsOf Silent) = 4 \<and> length (transitionsOf Straight) = 4 \<and>
   length (transitionsOf Turn) = 4 \<and> length (transitionsOf UTurn) = 4 \<and>
   singleDot d \<noteq> []"
  by (simp only: getDrawDirections_None_iff emitted_empty_iff classify_Silent_iff
      penDelta_emitted transition_counts singleDot_nonempty simp_thms)

text \<open>
  C8: the classy drawer renders the transition that arrives from the left and leaves
  through the top (\<^verbatim>\<open>rightUp\<close>) and the one that arrives from the right and leaves through
  the bottom (\<^verbatim>\<open>leftDown\<close>) with a quarter arc of half the module size between two half
  segments; the other two turns (\<^verbatim>\<open>downRight\<close>, \<^verbatim>\<open>upLeft\<close>) are two full segments at a
  right angle. Its single-dot glyph is the closed outline made of these two rounded turns,
  the same glyph that the classy-rounded drawer spells out.
\<close>

theorem C8_classy_rounds_diagonal_pair:
  "emitted (drawerFactory Classy s) Left Top =
     [Hor (s / 2), Arc (s / 2) (s / 2) (s / 2) (- (s / 2)), Ver (- (s / 2))] \<and>
   emitted (drawerFactory Classy s) Right Bottom =
     [Hor (- (s / 2)), Arc (s / 2) (s / 2) (- (s / 2)) (s / 2), Ver (s / 2)] \<and>
   emitted (drawerFactory Classy s) Top Right = [Ver s, Hor s] \<and>
   emitted (drawerFactory Classy s) Bottom Left = [Ver (- s), Hor (- s)] \<and>
   singleDot (drawerFactory Classy s) =
     [MoveBy s 0,
      Hor (- (s / 2)), Arc (s / 2) (s / 2) (- (s / 2)) (s / 2), Ver (s / 2),
      Hor (s / 2), Arc (s / 2) (s / 2) (s / 2) (- (s / 2)), Ver (- (s / 2))] \<and>
   singleDot (drawerFactory Classy s) = singleDot (drawerFactory ClassyRounded s) \<and>
   penDelta (tl (singleDot (drawerFactory Classy s))) = (0, 0)"
  by (simp add: emitted_def drawerFactory_def method_defs fragment_defs penDelta_def)

section \<open>Properties of the contour tracer\<close>

lemma inComponent_cellAt:
  "inComponent componentId comps p \<longleftrightarrow> cellAt comps (fst p) (snd p) = Some componentId"
proof (cases "0 \<le> fst p \<and> fst p < int (length comps)")
  case True
  then show ?thesis
    by (cases "0 \<le> snd p \<and> snd p < int (length (comps ! nat (fst p)))")
       (auto simp add: inComponent_def cellAt_def lookup2_def Let_def)
next
  case False
  then show ?thesis
    by (auto simp add: inComponent_def cellAt_def lookup2_def Let_def)
qed

lemma neighbour_advance: "neighbour p d = advance p d"
  by (cases p; cases d) (simp_all add: advance_def)

lemma hasDir_alt:
  "hasDir componentId comps p d \<longleftrightarrow>
     cellAt comps (fst (advance p d)) (snd (advance p d)) = Some componentId"
  by (simp add: hasDir_def inComponent_cellAt neighbour_advance)

lemma determineNextDirection_find:
  "determineNextDirection og (has Left) (has Right) (has Top) (has Bottom) =
     find has (searchOrder og)"
  by (cases og; cases "has Left"; cases "has Right"; cases "has Top"; cases "has Bottom")
     (simp_all add: determineNextDirection_def rotationOrder_def)

lemma nextOf_find:
  "nextOf componentId comps t =
     find (hasDir componentId comps (current t)) (searchOrder (origin t))"
  using determineNextDirection_find [of "origin t" "hasDir componentId comps (current t)"]
  by (simp add: nextOf_def hasDir_alt advance_def)

lemma set_searchOrder: "set (searchOrder og) = UNIV"
proof -
  have "d \<in> set (searchOrder og)" for d
    by (cases og; cases d) simp_all
  then show ?thesis by auto
qed

lemma nextOf_None:
  "nextOf componentId comps t = None \<longleftrightarrow>
     (\<forall>d. \<not> hasDir componentId comps (current t) d)"
  by (simp add: nextOf_find find_None_iff set_searchOrder)

lemma nextOf_Some_hasDir:
  "nextOf componentId comps t = Some d \<Longrightarrow> hasDir componentId comps (current t) d"
  by (auto simp: nextOf_find find_Some_iff)

lemma advance_opposite [simp]: "advance (advance p d) (opposite d) = p"
  by (cases d) (simp_all add: advance_def opposite_def)

lemma netRows_snoc: "netRows (ds @ [d]) = netRows ds + fst (advance (0, 0) d)"
  by (simp add: netRows_def)

lemma netCols_snoc: "netCols (ds @ [d]) = netCols ds + snd (advance (0, 0) d)"
  by (simp add: netCols_def)

lemma advance_delta:
  "fst (advance p d) = fst p + fst (advance (0, 0) d)"
  "snd (advance p d) = snd p + snd (advance (0, 0) d)"
  by (cases d; simp add: advance_def)+

lemma walkInv_moveOn:
  assumes "walkInv componentId comps start originalOrigin t"
    and "nextOf componentId comps t = Some d"
  shows "walkInv componentId comps start originalOrigin (moveOn drawer t d)"
proof -
  have h: "hasDir componentId comps (current t) d"
    using assms(2) by (rule nextOf_Some_hasDir)
  have c: "cellAt comps (fst (current t)) (snd (current t)) = Some componentId"
    using assms(1) unfolding walkInv_def by blast
  have rev: "hasDir componentId comps (advance (current t) d) (opposite d)"
    using c by (simp add: hasDir_alt)
  have r: "fst (current t) = fst start + netRows (moves t)"
    and k: "snd (current t) = snd start + netCols (moves t)"
    using assms(1) unfolding walkInv_def by blast+
  have "cellAt comps (fst (advance (current t) d)) (snd (advance (current t) d)) =
      Some componentId"
    using h by (simp add: hasDir_alt)
  moreover have "fst (advance (current t) d) = fst start + netRows (moves t @ [d])"
    using r by (simp add: netRows_snoc advance_delta [of "current t" d])
  moreover have "snd (advance (current t) d) = snd start + netCols (moves t @ [d])"
    using k by (simp add: netCols_snoc advance_delta [of "current t" d])
  ultimately show ?thesis
    using rev unfolding walkInv_def moveOn_def by simp
qed

text \<open>
  Partial correctness of the loop, by the induction rule of the partial function: from a
  state that satisfies the invariant, every exit is at the start cell with the first
  orientation. The \<^verbatim>\<open>break\<close> can only be taken in the first iteration, since afterwards the
  cell the walk came from is a neighbour in the component.
\<close>

lemma traceLoop_exit:
  assumes run: "traceLoop drawer componentId comps start originalOrigin t = Some t'"
    and inv: "walkInv componentId comps start originalOrigin t"
  shows "closedWalk start originalOrigin t'"
proof -
  define P where
    "P = (\<lambda>(dr :: drawer) cid comps st og u u'.
            walkInv cid comps st og u \<longrightarrow> closedWalk st og u')"
  have "P drawer componentId comps start originalOrigin t t'"
  proof (rule traceLoop.raw_induct [where P = P, OF _ run])
    fix loop :: "drawer \<Rightarrow> nat \<Rightarrow> labelmap \<Rightarrow> coord \<Rightarrow> direction \<Rightarrow> tracer \<Rightarrow> tracer option"
    fix dr cid comps st og u u'
    assume IH: "\<And>dr cid comps st og u u'. loop dr cid comps st og u = Some u' \<Longrightarrow>
                  P dr cid comps st og u u'"
    assume body: "(case nextOf cid comps u of
         None \<Rightarrow> Some (u\<lparr>path_t := path_t u @ singleDot dr\<rparr>)
       | Some nextDirection \<Rightarrow>
           (let t' = moveOn dr u nextDirection
            in if current t' \<noteq> st \<or> og \<noteq> origin t'
               then loop dr cid comps st og t' else Some t')) = Some u'"
    show "P dr cid comps st og u u'"
      unfolding P_def
    proof
      assume wi: "walkInv cid comps st og u"
      show "closedWalk st og u'"
      proof (cases "nextOf cid comps u")
        case None
        then have "\<not> hasDir cid comps (current u) (origin u)"
          by (simp add: nextOf_None)
        with wi have "moves u = [] \<and> current u = st \<and> origin u = og"
          unfolding walkInv_def by blast
        moreover from body None have "u' = u\<lparr>path_t := path_t u @ singleDot dr\<rparr>"
          by simp
        ultimately show ?thesis by (simp add: closedWalk_def netRows_def netCols_def)
      next
        case (Some d)
        let ?u1 = "moveOn dr u d"
        have inv1: "walkInv cid comps st og ?u1"
          using wi Some by (rule walkInv_moveOn)
        show ?thesis
        proof (cases "current ?u1 \<noteq> st \<or> og \<noteq> origin ?u1")
          case True
          with body Some have "loop dr cid comps st og ?u1 = Some u'"
            by (simp add: Let_def)
          from IH [OF this] inv1 show ?thesis by (simp add: P_def)
        next
          case False
          with body Some have eq: "u' = ?u1" by (simp add: Let_def)
          have "fst (current ?u1) = fst st + netRows (moves ?u1)"
            "snd (current ?u1) = snd st + netCols (moves ?u1)"
            using inv1 unfolding walkInv_def by blast+
          with False have "netRows (moves ?u1) = 0" "netCols (moves ?u1) = 0" by auto
          with False eq show ?thesis by (simp add: closedWalk_def)
        qed
      qed
    qed
  qed
  with inv show ?thesis by (simp add: P_def)
qed

lemma walkInv_start:
  assumes "cellAt comps (fst start) (snd start) = Some componentId"
  shows "walkInv componentId comps start
           (origin (startTracer dotSize componentId comps offset start moveRight))
           (startTracer dotSize componentId comps offset start moveRight)"
  using assms by (simp add: walkInv_def startTracer_def Let_def netRows_def netCols_def)

lemma traceContour_closed:
  assumes "cellAt comps (fst start) (snd start) = Some componentId"
    and "traceContour dotSize componentId comps offset start drawer moveRight = Some t"
  shows "closedWalk start
           (origin (startTracer dotSize componentId comps offset start moveRight)) t"
  using assms(2) walkInv_start [OF assms(1)]
  unfolding traceContour_def Let_def by (rule traceLoop_exit)

lemma traceContour_singleDot:
  assumes "\<forall>d. \<not> hasDir componentId comps start d"
  shows "traceContour dotSize componentId comps offset start drawer moveRight =
     Some \<lparr>current = start, origin = Top,
       path_t = [MoveTo (of_int (snd start) * dotSize + fst offset)
                        (of_int (fst start) * dotSize + snd offset)] @ singleDot drawer,
       moves = []\<rparr>"
proof -
  have r: "cellAt comps (fst start) (snd start + 1) \<noteq> Some componentId"
    using assms [rule_format, of Right] by (simp add: hasDir_alt advance_def)
  have b: "cellAt comps (fst start + 1) (snd start) \<noteq> Some componentId"
    using assms [rule_format, of Bottom] by (simp add: hasDir_alt advance_def)
  have t0: "startTracer dotSize componentId comps offset start moveRight =
      \<lparr>current = start, origin = Top,
       path_t = [MoveTo (of_int (snd start) * dotSize + fst offset)
                        (of_int (fst start) * dotSize + snd offset)], moves = []\<rparr>"
    using r b by (simp add: startTracer_def)
  have "nextOf componentId comps
      (startTracer dotSize componentId comps offset start moveRight) = None"
    using assms by (simp add: nextOf_None t0)
  then show ?thesis
    by (simp add: traceContour_def traceLoop.simps t0)
qed

lemma traceLoop_step:
  "traceLoop drawer componentId comps start originalOrigin t =
     (case find (hasDir componentId comps (current t)) (searchOrder (origin t)) of
        None \<Rightarrow> Some (t\<lparr>path_t := path_t t @ singleDot drawer\<rparr>)
      | Some d \<Rightarrow>
          (if neighbour (current t) d \<noteq> start \<or> originalOrigin \<noteq> opposite d
           then traceLoop drawer componentId comps start originalOrigin
                  \<lparr>current = neighbour (current t) d, origin = opposite d,
                   path_t = path_t t @ emitted drawer (origin t) d, moves = moves t @ [d]\<rparr>
           else Some \<lparr>current = neighbour (current t) d, origin = opposite d,
                   path_t = path_t t @ emitted drawer (origin t) d, moves = moves t @ [d]\<rparr>))"
  by (subst traceLoop.simps)
     (simp add: nextOf_find moveOn_def neighbour_advance Let_def split: option.splits)

text \<open>
  C2: every iteration of the loop of the tracer looks for the first side, in the circular
  order left, bottom, right, top taken from just after the arrival side and wrapping
  around, whose neighbour belongs to the component. If there is one, the walk appends the
  glyph of the transition, moves to that neighbour and arrives there from the opposite
  side, and the loop goes on unless this is the start module with the first orientation.
  If there is none, the loop ends with the single-dot glyph of the drawer. So when none
  of the four neighbours of the start module belongs to the component, the path is the
  \<^verbatim>\<open>M\<close> command followed by exactly the single-dot glyph, and no transition has been made.
\<close>

theorem C2_next_direction_and_single_dot:
  "traceLoop drawer componentId comps start originalOrigin t =
     (case find (hasDir componentId comps (current t)) (searchOrder (origin t)) of
        None \<Rightarrow> Some (t\<lparr>path_t := path_t t @ singleDot drawer\<rparr>)
      | Some d \<Rightarrow>
          (if neighbour (current t) d \<noteq> start \<or> originalOrigin \<noteq> opposite d
           then traceLoop drawer componentId comps start originalOrigin
                  \<lparr>current = neighbour (current t) d, origin = opposite d,
                   path_t = path_t t @ emitted drawer (origin t) d, moves = moves t @ [d]\<rparr>
           else Some \<lparr>current = neighbour (current t) d, origin = opposite d,
                   path_t = path_t t @ emitted drawer (origin t) d, moves = moves t @ [d]\<rparr>)) \<and>
   determineNextDirection og (has Left) (has Right) (has Top) (has Bottom) =
     find has (searchOrder og) \<and>
   ((\<forall>d. \<not> hasDir componentId comps start d) \<longrightarrow>
      traceContour dotSize componentId comps offset start drawer moveRight =
        Some \<lparr>current = start, origin = Top,
          path_t = [MoveTo (of_int (snd start) * dotSize + fst offset)
                           (of_int (fst start) * dotSize + snd offset)] @ singleDot drawer,
          moves = []\<rparr> \<and>
      renderComponentToPath dotSize componentId comps offset start drawer moveRight =
        Some ([MoveTo (of_int (snd start) * dotSize + fst offset)
                      (of_int (fst start) * dotSize + snd offset)] @ singleDot drawer))"
  using traceLoop_step [of drawer componentId comps start originalOrigin t]
    determineNextDirection_find [of og has]
    traceContour_singleDot [of componentId comps start dotSize offset drawer moveRight]
  by (simp add: renderComponentToPath_def)

text \<open>
  The witness: an isolated module, the four search orders, one choice of direction for
  each arrival side, and the walk around a block of two rows and three columns with its
  six directions.
\<close>

theorem C2_next_direction_and_single_dot_witness:
  "(\<forall>d. \<not> hasDir 2 [[Some 2, None], [None, Some 3]] (0, 0) d) \<and>
   renderComponentToPath 4 2 [[Some 2, None], [None, Some 3]] (0, 0) (0, 0)
       (drawerFactory Square 4) False =
     Some [MoveTo 0 0, MoveBy 4 0, Hor (- 4), Ver 4, Hor 4, Ver (- 4)] \<and>
   determineNextDirection Left True False True False = Some Top \<and>
   determineNextDirection Bottom True False False True = Some Left \<and>
   determineNextDirection Right False True False True = Some Bottom \<and>
   determineNextDirection Top False True False True = Some Bottom \<and>
   determineNextDirection Top False False False False = None \<and>
   map_option moves
     (traceContour 4 2 [[Some 2, Some 2, Some 2], [Some 2, Some 2, Some 2]] (0, 0) (0, 0)
        (drawerFactory Square 4) False) =
     Some [Bottom, Right, Right, Top, Left, Left]"
proof -
  have h: "\<forall>d. \<not> hasDir 2 [[Some 2, None], [None, Some 3]] (0, 0) d"
  proof
    fix d show "\<not> hasDir 2 [[Some 2, None], [None, Some 3]] (0, 0) d"
      by (cases d) (simp_all add: hasDir_def inComponent_def)
  qed
  have "renderComponentToPath 4 2 [[Some 2, None], [None, Some 3]] (0, 0) (0, 0)
       (drawerFactory Square 4) False =
     Some ([MoveTo (of_int (snd (0 :: int, 0 :: int)) * 4 + fst (0 :: rat, 0 :: rat))
                   (of_int (fst (0 :: int, 0 :: int)) * 4 + snd (0 :: rat, 0 :: rat))] @
           singleDot (drawerFactory Square 4))"
    using C2_next_direction_and_single_dot
      [where componentId = 2 and comps = "[[Some 2, None], [None, Some 3]]"
         and start = "(0, 0)" and dotSize = 4 and offset = "(0, 0)"
         and drawer = "drawerFactory Square 4" and moveRight = False] h
    by blast
  then have a: "renderComponentToPath 4 2 [[Some 2, None], [None, Some 3]] (0, 0) (0, 0)
       (drawerFactory Square 4) False =
     Some [MoveTo 0 0, MoveBy 4 0, Hor (- 4), Ver 4, Hor 4, Ver (- 4)]"
    by (simp add: singleDot_def drawerFactory_def leftDown_def rightUp_def fragment_defs)
  have b: "determineNextDirection Left True False True False = Some Top"
    "determineNextDirection Bottom True False False True = Some Left"
    "determineNextDirection Right False True False True = Some Bottom"
    "determineNextDirection Top False True False True = Some Bottom"
    "determineNextDirection Top False False False False = None"
    by (simp_all add: determineNextDirection_def rotationOrder_def)
  have c: "map_option moves
     (traceContour 4 2 [[Some 2, Some 2, Some 2], [Some 2, Some 2, Some 2]] (0, 0) (0, 0)
        (drawerFactory Square 4) False) =
     Some [Bottom, Right, Right, Top, Left, Left]"
    by code_simp
  from h a b c show ?thesis by blast
qed

text \<open>
  C3: when the start module carries the component id and the walk returns, the loop has
  been left at the start module with the orientation it began with (arriving there with
  another orientation continues the loop), and the sequence of directions taken has net
  displacement zero in rows and in columns.
\<close>

theorem C3_contour_is_closed:
  assumes "cellAt comps (fst start) (snd start) = Some componentId"
    and "traceContour dotSize componentId comps offset start drawer moveRight = Some t"
  shows "current t = start \<and>
         origin t = origin (startTracer dotSize componentId comps offset start moveRight) \<and>
         netRows (moves t) = 0 \<and> netCols (moves t) = 0"
  using traceContour_closed [OF assms] by (simp add: closedWalk_def)

theorem C3_contour_is_closed_witness:
  "cellAt [[Some 2, Some 2], [None, Some 2]] 0 0 = Some 2 \<and>
   traceContour 4 2 [[Some 2, Some 2], [None, Some 2]] (0, 0) (0, 0)
       (drawerFactory Square 4) False =
     Some \<lparr>current = (0, 0), origin = Right,
       path_t = [MoveTo 0 0, MoveBy 4 0, Hor (- 4), Ver 4, Hor 4, Ver 4, Hor 4,
                 Ver (- 4), Ver (- 4), Hor (- 4)],
       moves = [Right, Bottom, Top, Left]\<rparr> \<and>
   netRows [Right, Bottom, Top, Left] = 0 \<and> netCols [Right, Bottom, Top, Left] = 0"
proof -
  have c: "cellAt [[Some 2, Some 2], [None, Some 2]] 0 0 = Some 2"
    by (simp add: cellAt_def lookup2_def)
  have r: "traceContour 4 2 [[Some 2, Some 2], [None, Some 2]] (0, 0) (0, 0)
       (drawerFactory Square 4) False =
     Some \<lparr>current = (0, 0), origin = Right,
       path_t = [MoveTo 0 0, MoveBy 4 0, Hor (- 4), Ver 4, Hor 4, Ver 4, Hor 4,
                 Ver (- 4), Ver (- 4), Hor (- 4)],
       moves = [Right, Bottom, Top, Left]\<rparr>"
    by code_simp
  from C3_contour_is_closed [of "[[Some 2, Some 2], [None, Some 2]]" "(0, 0)" 2, simplified, OF c r]
  show ?thesis using c r by simp
qed

section \<open>Properties of the shape expander\<close>

lemma lookup2_in_range:
  assumes "0 \<le> r" "r < int (length a)" "0 \<le> c" "c < int (length (a ! nat r))"
  shows "lookup2 a r c = Some (a ! nat r ! nat c)"
  using assms by (simp add: lookup2_def)

lemma nth_upto_0: "0 \<le> i \<Longrightarrow> i < n \<Longrightarrow> [0..n - 1] ! nat i = i"
  by (simp add: nth_upto)

lemma nth_nth_map_upto:
  assumes "0 \<le> row" "row < n" "0 \<le> col" "col < n"
  shows "map (\<lambda>r. map (f r) [0..n - 1]) [0..n - 1] ! nat row ! nat col = f row col"
proof -
  have l: "nat row < length [0..n - 1]" "nat col < length [0..n - 1]"
    using assms by simp_all
  show ?thesis
    by (simp only: nth_map [OF l(1)] nth_map [OF l(2)] nth_upto_0 [OF assms(1,2)]
        nth_upto_0 [OF assms(3,4)])
qed

lemma expand_nth:
  assumes "0 \<le> row" "row < \<lceil>of_int count + additionalDotsOf roundOn w h mg ds count * 2\<rceil>"
    and "0 \<le> col" "col < \<lceil>of_int count + additionalDotsOf roundOn w h mg ds count * 2\<rceil>"
  shows "expandDotsMaskWithCircle isDark roundOn w h mg ds count dotsMask ! nat row ! nat col =
         expandCell isDark count (additionalDotsOf roundOn w h mg ds count)
           (of_int count + additionalDotsOf roundOn w h mg ds count * 2)
           (roundSize roundOn ((of_int count + additionalDotsOf roundOn w h mg ds count * 2) / 2))
           dotsMask row col"
  unfolding expandDotsMaskWithCircle_def Let_def
  using assms by (rule nth_nth_map_upto)

lemma length_nth_map_upto:
  assumes "0 \<le> row" "row < n"
  shows "length (map (\<lambda>r. map (f r) [0..n - 1]) [0..n - 1] ! nat row) = nat n"
proof -
  have l: "nat row < length [0..n - 1]" using assms by simp
  show ?thesis by (simp only: nth_map [OF l] length_map) simp
qed

lemma expand_line_length:
  assumes "0 \<le> row" "row < \<lceil>of_int count + additionalDotsOf roundOn w h mg ds count * 2\<rceil>"
  shows "length (expandDotsMaskWithCircle isDark roundOn w h mg ds count dotsMask ! nat row) =
     nat \<lceil>of_int count + additionalDotsOf roundOn w h mg ds count * 2\<rceil>"
  unfolding expandDotsMaskWithCircle_def Let_def
  using assms by (rule length_nth_map_upto)

lemma expand_length:
  "length (expandDotsMaskWithCircle isDark roundOn w h mg ds count dotsMask) =
     nat \<lceil>of_int count + additionalDotsOf roundOn w h mg ds count * 2\<rceil>"
  unfolding expandDotsMaskWithCircle_def Let_def by simp


text \<open>
  With the option \<^verbatim>\<open>roundSize\<close> set the padding is an integer \<open>p\<close>, and when it is not
  negative the cell of the expanded mask at \<open>(r + p, c + p)\<close> is the cell \<open>(r, c)\<close> of a
  square input mask of side \<open>count\<close>.
\<close>

lemma expander_keeps_interior_when_rounding:
  assumes sq: "square dotsMask (nat count)"
    and p: "additionalDotsOf True w h mg ds count = of_int p" "0 \<le> p"
    and r: "0 \<le> r" "r < count" and c: "0 \<le> c" "c < count"
  shows "lookup2 (expandDotsMaskWithCircle isDark True w h mg ds count dotsMask)
           (r + p) (c + p) = Some (dotsMask ! nat r ! nat c)"
proof -
  let ?E = "expandDotsMaskWithCircle isDark True w h mg ds count dotsMask"
  let ?n = "count + p * 2"
  have fc: "of_int count + additionalDotsOf True w h mg ds count * 2 = (of_int ?n :: rat)"
    by (simp add: p(1))
  have ce: "\<lceil>of_int count + additionalDotsOf True w h mg ds count * 2 :: rat\<rceil> = ?n"
    unfolding fc by (rule ceiling_of_int)
  have len: "length ?E = nat ?n"
    unfolding expand_length ce ..
  have rin: "nat r < length dotsMask" using sq r by (simp add: square_def)
  then have "length (dotsMask ! nat r) = nat count"
    using sq by (simp add: square_def list_all_length)
  then have src: "lookup2 dotsMask r c = Some (dotsMask ! nat r ! nat c)"
    using r c rin by (intro lookup2_in_range) simp_all
  have b: "0 \<le> r + p" "r + p < ?n" "0 \<le> c + p" "c + p < ?n"
    using p(2) r c by simp_all
  have "?E ! nat (r + p) ! nat (c + p) =
      expandCell isDark count (additionalDotsOf True w h mg ds count)
        (of_int count + additionalDotsOf True w h mg ds count * 2)
        (roundSize True ((of_int count + additionalDotsOf True w h mg ds count * 2) / 2))
        dotsMask (r + p) (c + p)"
    using b by (intro expand_nth) (simp_all only: ce)
  also have "\<dots> = dotsMask ! nat r ! nat c"
    using p(2) r c src by (simp add: expandCell_def lookupNum_def p(1))
  finally have cell: "?E ! nat (r + p) ! nat (c + p) = dotsMask ! nat r ! nat c" .
  have "length (?E ! nat (r + p)) = nat ?n"
    using b expand_line_length [of "r + p" count True w h mg ds isDark dotsMask]
    unfolding ce by simp
  then have "lookup2 ?E (r + p) (c + p) = Some (?E ! nat (r + p) ! nat (c + p))"
    using p r c len by (intro lookup2_in_range) simp_all
  with cell show ?thesis by simp
qed


section \<open>The equivalence store\<close>

lemma canonical_cls: "canonical st v = Min (cls st v)"
  by (simp add: canonical_def cls_def)

lemma cls_self:
  assumes "eqInv st"
  shows "k \<in> cls st k"
proof (cases "equivalences st k")
  case None
  then show ?thesis by (simp add: cls_def)
next
  case (Some a)
  with assms have "k \<in> set (heap st a)" unfolding eqInv_def by blast
  with Some show ?thesis by (simp add: cls_def)
qed

lemma cls_eq:
  assumes "eqInv st" and "j \<in> cls st k"
  shows "cls st j = cls st k"
proof (cases "equivalences st k")
  case None
  with assms(2) show ?thesis by (simp add: cls_def)
next
  case (Some a)
  with assms(2) have "j \<in> set (heap st a)" by (simp add: cls_def)
  with assms(1) Some have "equivalences st j = Some a" unfolding eqInv_def by blast
  with Some show ?thesis by (simp add: cls_def)
qed

lemma cls_finite: "finite (cls st k)"
  by (simp add: cls_def)

lemma cls_Some: "equivalences st k = Some a \<Longrightarrow> cls st k = set (heap st a)"
  by (simp add: cls_def)

lemma cls_None: "equivalences st k = None \<Longrightarrow> cls st k = {k}"
  by (simp add: cls_def)

lemma set_foldl_setAdd: "set (foldl setAdd xs es) = set xs \<union> set es"
  by (induction es arbitrary: xs) (auto simp: setAdd_def)

lemma foldl_absorb_heap:
  "heap (foldl (absorb a) st es) = (heap st)(a := foldl setAdd (heap st a) es)"
  by (induction es arbitrary: st) (simp_all add: absorb_def)

lemma foldl_absorb_equivalences:
  "equivalences (foldl (absorb a) st es) k =
     (if k \<in> set es then Some a else equivalences st k)"
  by (induction es arbitrary: st) (simp_all add: absorb_def)

lemma foldl_absorb_frame:
  "components (foldl (absorb a) st es) = components st"
  "currentComponent (foldl (absorb a) st es) = currentComponent st"
  "nextAddr (foldl (absorb a) st es) = nextAddr st"
  by (induction es arbitrary: st) (simp_all add: absorb_def)

lemma mergeId_frame:
  "components (mergeId a st i) = components st"
  "currentComponent (mergeId a st i) = currentComponent st"
  "nextAddr (mergeId a st i) = nextAddr st"
  by (simp_all add: mergeId_def foldl_absorb_frame)

lemma mergeId_props:
  assumes inv: "eqInv st" and m: "equivalences st m = Some a"
  shows "eqInv (mergeId a st i)"
    and "equivalences (mergeId a st i) m = Some a"
    and "cls (mergeId a st i) x = joined (cls st) (cls st m \<union> cls st i) x"
    and "dom (equivalences (mergeId a st i)) = dom (equivalences st) \<union> cls st i"
proof -
  let ?st' = "mergeId a st i"
  let ?U = "cls st m \<union> cls st i"
  have clsm: "cls st m = set (heap st a)" using m by (rule cls_Some)
  have memA: "\<And>e. e \<in> set (heap st a) \<Longrightarrow> equivalences st e = Some a"
    using inv m unfolding eqInv_def by blast
  have keyIn: "\<And>k c. equivalences st k = Some c \<Longrightarrow> k \<in> set (heap st c)"
    using inv unfolding eqInv_def by blast
  have memOf: "\<And>k c e. equivalences st k = Some c \<Longrightarrow> e \<in> set (heap st c) \<Longrightarrow>
      equivalences st e = Some c"
    using inv unfolding eqInv_def by blast
  have bound: "\<And>k c. equivalences st k = Some c \<Longrightarrow> c < nextAddr st"
    using inv unfolding eqInv_def by blast
  have "eqInv ?st' \<and> equivalences ?st' m = Some a \<and>
        cls ?st' x = joined (cls st) ?U x \<and>
        dom (equivalences ?st') = dom (equivalences st) \<union> cls st i"
  proof (cases "i \<in> set (heap st a)")
    case True
    then have "equivalences st i = Some a" by (rule memA)
    then have ci: "cls st i = cls st m" using clsm by (simp add: cls_Some)
    have st': "?st' = st" using True by (simp add: mergeId_def)
    have "cls st x = joined (cls st) ?U x"
      using cls_eq [OF inv, of x m] by (simp add: joined_def ci)
    moreover have "cls st i \<subseteq> dom (equivalences st)"
      using memA ci clsm by auto
    ultimately show ?thesis
      using inv m st' by auto
  next
    case False
    define es where "es = (case equivalences st i of Some b \<Rightarrow> heap st b | None \<Rightarrow> [i])"
    have ses: "set es = cls st i" by (simp add: es_def cls_def)
    have st': "?st' = foldl (absorb a) st es"
      using False by (simp add: mergeId_def es_def)
    have eq': "\<And>k. equivalences ?st' k = (if k \<in> cls st i then Some a else equivalences st k)"
      by (simp add: st' ses [symmetric] foldl_absorb_equivalences)
    have heapA: "set (heap ?st' a) = ?U"
      by (simp add: st' foldl_absorb_heap set_foldl_setAdd clsm ses)
    have heapO: "\<And>c. c \<noteq> a \<Longrightarrow> heap ?st' c = heap st c"
      by (simp add: st' foldl_absorb_heap)
    have nx: "nextAddr ?st' = nextAddr st" by (rule mergeId_frame)
    have notA: "equivalences st i \<noteq> Some a"
      using False keyIn by blast
    have disj: "\<And>e. e \<in> cls st i \<Longrightarrow> e \<notin> set (heap st a)"
    proof
      fix e assume e: "e \<in> cls st i" and ea: "e \<in> set (heap st a)"
      have "equivalences st e = Some a" using ea by (rule memA)
      moreover have "cls st e = cls st i" using inv e by (rule cls_eq)
      ultimately have "cls st i = set (heap st a)" by (simp add: cls_Some)
      with cls_self [OF inv, of i] False show False by simp
    qed
    have inCi: "\<And>k c. equivalences st k = Some c \<Longrightarrow> k \<notin> cls st i \<Longrightarrow>
        set (heap st c) \<inter> cls st i = {}"
    proof (rule ccontr)
      fix k c assume k: "equivalences st k = Some c" and nk: "k \<notin> cls st i"
        and ne: "set (heap st c) \<inter> cls st i \<noteq> {}"
      then obtain e where e: "e \<in> set (heap st c)" "e \<in> cls st i" by blast
      have "equivalences st e = Some c" using k e(1) by (rule memOf)
      then have "cls st e = set (heap st c)" by (rule cls_Some)
      moreover have "cls st e = cls st i" using inv e(2) by (rule cls_eq)
      ultimately have "k \<in> cls st i" using keyIn [OF k] by simp
      with nk show False ..
    qed
    have E: "eqInv ?st'"
      unfolding eqInv_def
    proof (intro allI impI)
      fix k c assume kc: "equivalences ?st' k = Some c"
      show "c < nextAddr ?st' \<and> k \<in> set (heap ?st' c) \<and>
            (\<forall>e \<in> set (heap ?st' c). equivalences ?st' e = Some c)"
      proof (cases "c = a")
        case True
        have "k \<in> ?U"
        proof (cases "k \<in> cls st i")
          case True then show ?thesis by simp
        next
          case False
          with kc \<open>c = a\<close> have "equivalences st k = Some a" by (simp add: eq')
          then show ?thesis using keyIn clsm by auto
        qed
        moreover have "\<forall>e \<in> ?U. equivalences ?st' e = Some a"
          using memA clsm by (auto simp: eq')
        ultimately show ?thesis
          using True heapA nx bound [OF m] by simp
      next
        case False
        with kc have nk: "k \<notin> cls st i" and old: "equivalences st k = Some c"
          by (auto simp: eq' split: if_splits)
        have "\<forall>e \<in> set (heap st c). equivalences ?st' e = Some c"
          using memOf [OF old] inCi [OF old nk] by (auto simp: eq')
        then show ?thesis
          using False heapO [OF False] nx bound [OF old] keyIn [OF old] by simp
      qed
    qed
    have M: "equivalences ?st' m = Some a" using m by (simp add: eq')
    have C: "cls ?st' x = joined (cls st) ?U x"
    proof (cases "x \<in> cls st i")
      case True
      then have "equivalences ?st' x = Some a" by (simp add: eq')
      then have "cls ?st' x = ?U" using heapA by (simp add: cls_Some)
      with True show ?thesis by (simp add: joined_def)
    next
      case nx: False
      show ?thesis
      proof (cases "equivalences st x")
        case None
        then have "x \<notin> set (heap st a)" using memA by force
        moreover have "equivalences ?st' x = None" using None nx by (simp add: eq')
        then have "cls ?st' x = cls st x" using None by (simp add: cls_None)
        ultimately show ?thesis using nx by (simp add: joined_def clsm)
      next
        case (Some c)
        show ?thesis
        proof (cases "c = a")
          case True
          with Some have "x \<in> cls st m" using keyIn clsm by auto
          moreover have "equivalences ?st' x = Some a" using Some True nx by (simp add: eq')
          then have "cls ?st' x = ?U" using heapA by (simp add: cls_Some)
          ultimately show ?thesis by (simp add: joined_def)
        next
          case False
          have "x \<notin> set (heap st a)"
            using memA Some False by force
          moreover have "equivalences ?st' x = Some c" using Some nx by (simp add: eq')
          then have "cls ?st' x = cls st x"
            using Some heapO [OF False] by (simp add: cls_Some)
          ultimately show ?thesis using nx by (simp add: joined_def clsm)
        qed
      qed
    qed
    have D: "dom (equivalences ?st') = dom (equivalences st) \<union> cls st i"
      by (auto simp: eq' dom_def)
    from E M C D show ?thesis by blast
  qed
  then show "eqInv ?st'" "equivalences ?st' m = Some a" "cls ?st' x = joined (cls st) ?U x"
    "dom (equivalences ?st') = dom (equivalences st) \<union> cls st i"
    by blast+
qed


lemma mergeId_dom_sub: 
  assumes "eqInv st" and "equivalences st m = Some a"
  shows "dom (equivalences (mergeId a st i)) = dom (equivalences st) \<union> cls st i"
  using assms by (rule mergeId_props(4))

lemma ensureClass_frame:
  "components (ensureClass m st) = components st"
  "currentComponent (ensureClass m st) = currentComponent st"
  by (simp_all add: ensureClass_def)

lemma ensureClass_props:
  assumes inv: "eqInv st"
  shows "eqInv (ensureClass m st)"
    and "equivalences (ensureClass m st) m \<noteq> None"
    and "cls (ensureClass m st) x = cls st x"
    and "dom (equivalences (ensureClass m st)) = insert m (dom (equivalences st))"
proof -
  let ?st' = "ensureClass m st"
  have "eqInv ?st' \<and> equivalences ?st' m \<noteq> None \<and> cls ?st' x = cls st x \<and>
        dom (equivalences ?st') = insert m (dom (equivalences st))"
  proof (cases "equivalences st m")
    case (Some a)
    then have "?st' = st" by (simp add: ensureClass_def)
    with inv Some show ?thesis by auto
  next
    case None
    let ?n = "nextAddr st"
    have eq': "\<And>k. equivalences ?st' k = (if k = m then Some ?n else equivalences st k)"
      using None by (simp add: ensureClass_def)
    have hp: "\<And>c. heap ?st' c = (if c = ?n then [m] else heap st c)"
      using None by (simp add: ensureClass_def)
    have nx: "nextAddr ?st' = ?n + 1" using None by (simp add: ensureClass_def)
    have bound: "\<And>k c. equivalences st k = Some c \<Longrightarrow> c < ?n"
      using inv unfolding eqInv_def by blast
    have keyIn: "\<And>k c. equivalences st k = Some c \<Longrightarrow> k \<in> set (heap st c)"
      using inv unfolding eqInv_def by blast
    have memOf: "\<And>k c e. equivalences st k = Some c \<Longrightarrow> e \<in> set (heap st c) \<Longrightarrow>
        equivalences st e = Some c"
      using inv unfolding eqInv_def by blast
    have E: "eqInv ?st'"
      unfolding eqInv_def
    proof (intro allI impI)
      fix k c assume kc: "equivalences ?st' k = Some c"
      show "c < nextAddr ?st' \<and> k \<in> set (heap ?st' c) \<and>
            (\<forall>e \<in> set (heap ?st' c). equivalences ?st' e = Some c)"
      proof (cases "k = m")
        case True
        with kc have "c = ?n" by (simp add: eq')
        with True show ?thesis by (simp add: eq' hp nx)
      next
        case False
        with kc have old: "equivalences st k = Some c" by (simp add: eq')
        have c: "c < ?n" using old by (rule bound)
        have "\<forall>e \<in> set (heap st c). equivalences ?st' e = Some c"
        proof
          fix e assume "e \<in> set (heap st c)"
          then have "equivalences st e = Some c" using old memOf by blast
          moreover from this None have "e \<noteq> m" by auto
          ultimately show "equivalences ?st' e = Some c" by (simp add: eq')
        qed
        with c keyIn [OF old] show ?thesis by (simp add: hp nx)
      qed
    qed
    have C: "cls ?st' x = cls st x"
    proof (cases "x = m")
      case True
      with None show ?thesis by (simp add: cls_def eq' hp)
    next
      case False
      show ?thesis
      proof (cases "equivalences st x")
        case None
        with False show ?thesis by (simp add: cls_def eq')
      next
        case (Some c)
        then have "c \<noteq> ?n" using bound by fastforce
        with Some False show ?thesis by (simp add: cls_def eq' hp)
      qed
    qed
    have D: "dom (equivalences ?st') = insert m (dom (equivalences st))"
      by (auto simp: eq' dom_def)
    from E C D show ?thesis by (simp add: eq')
  qed
  then show "eqInv ?st'" "equivalences ?st' m \<noteq> None" "cls ?st' x = cls st x"
    "dom (equivalences ?st') = insert m (dom (equivalences st))"
    by blast+
qed

lemma joined_step:
  assumes self: "\<And>y. y \<in> f y" and same: "\<And>y z. z \<in> f y \<Longrightarrow> f z = f y"
  shows "joined f (f m \<union> f w) m \<union> \<Union> (joined f (f m \<union> f w) ` S) = f m \<union> f w \<union> \<Union> (f ` S)"
    and "f m \<union> f w \<subseteq> W \<Longrightarrow> joined (joined f (f m \<union> f w)) W x = joined f W x"
proof -
  let ?U = "f m \<union> f w"
  have m: "joined f ?U m = ?U" using self [of m] by (simp add: joined_def)
  have sub: "\<And>v. v \<in> ?U \<Longrightarrow> f v \<subseteq> ?U" using same by blast
  have "\<And>v. ?U \<union> joined f ?U v = ?U \<union> f v"
    using sub by (auto simp: joined_def)
  then have "?U \<union> \<Union> (joined f ?U ` S) = ?U \<union> \<Union> (f ` S)" by blast
  with m show "joined f ?U m \<union> \<Union> (joined f ?U ` S) = ?U \<union> \<Union> (f ` S)" by simp
  show "?U \<subseteq> W \<Longrightarrow> joined (joined f ?U) W x = joined f W x"
    by (auto simp: joined_def)
qed

lemma foldl_mergeId_frame:
  "components (foldl (mergeId a) st ws) = components st"
  "currentComponent (foldl (mergeId a) st ws) = currentComponent st"
  by (induction ws arbitrary: st) (simp_all add: mergeId_frame)

lemma foldl_mergeId:
  assumes "eqInv st" and "equivalences st m = Some a"
  shows "eqInv (foldl (mergeId a) st ws) \<and>
         (\<forall>x. cls (foldl (mergeId a) st ws) x =
               joined (cls st) (cls st m \<union> \<Union> (cls st ` set ws)) x) \<and>
         dom (equivalences (foldl (mergeId a) st ws)) =
           dom (equivalences st) \<union> \<Union> (cls st ` set ws)"
  using assms
proof (induction ws arbitrary: st)
  case Nil
  have "\<And>x. joined (cls st) (cls st m) x = cls st x"
    using cls_eq [OF Nil(1)] by (simp add: joined_def)
  with Nil show ?case by simp
next
  case (Cons w ws)
  let ?st2 = "mergeId a st w"
  let ?U1 = "cls st m \<union> cls st w"
  note p = mergeId_props [OF Cons.prems, of w]
  have c2: "cls ?st2 = joined (cls st) ?U1" using p(3) by (rule ext)
  note IH = Cons.IH [OF p(1) p(2)]
  have self: "\<And>y. y \<in> cls st y" using cls_self [OF Cons.prems(1)] .
  have same: "\<And>y z. z \<in> cls st y \<Longrightarrow> cls st z = cls st y" using cls_eq [OF Cons.prems(1)] .
  have W: "cls ?st2 m \<union> \<Union> (cls ?st2 ` set ws) = ?U1 \<union> \<Union> (cls st ` set ws)"
    unfolding c2 using self same by (rule joined_step(1))
  have W': "?U1 \<union> \<Union> (cls st ` set ws) = cls st m \<union> \<Union> (cls st ` set (w # ws))"
    by auto
  have J: "\<And>x. joined (cls ?st2) (cls st m \<union> \<Union> (cls st ` set (w # ws))) x =
      joined (cls st) (cls st m \<union> \<Union> (cls st ` set (w # ws))) x"
    unfolding c2 using self same by (rule joined_step(2)) auto
  have dsub: "cls st m \<subseteq> dom (equivalences st)"
  proof
    fix e assume "e \<in> cls st m"
    then have "e \<in> set (heap st a)" using Cons.prems(2) by (simp add: cls_Some)
    then have "equivalences st e = Some a" using Cons.prems unfolding eqInv_def by blast
    then show "e \<in> dom (equivalences st)" by auto
  qed
  have D: "dom (equivalences ?st2) \<union> \<Union> (cls ?st2 ` set ws) =
      dom (equivalences st) \<union> \<Union> (cls st ` set (w # ws))"
  proof -
    have "\<And>v. dom (equivalences st) \<union> cls st w \<union> joined (cls st) ?U1 v =
        dom (equivalences st) \<union> cls st w \<union> cls st v"
      using dsub same by (auto simp: joined_def)
    then have "dom (equivalences st) \<union> cls st w \<union> \<Union> (joined (cls st) ?U1 ` set ws) =
        dom (equivalences st) \<union> cls st w \<union> \<Union> (cls st ` set ws)" by blast
    then show ?thesis by (simp add: p(4) c2 Un_assoc)
  qed
  have Weq: "cls ?st2 m \<union> \<Union> (cls ?st2 ` set ws) =
      cls st m \<union> \<Union> (cls st ` set (w # ws))"
    using W W' by (rule trans)
  from IH have a1: "eqInv (foldl (mergeId a) ?st2 ws)"
    and a2: "\<And>x. cls (foldl (mergeId a) ?st2 ws) x =
        joined (cls ?st2) (cls ?st2 m \<union> \<Union> (cls ?st2 ` set ws)) x"
    and a3: "dom (equivalences (foldl (mergeId a) ?st2 ws)) =
        dom (equivalences ?st2) \<union> \<Union> (cls ?st2 ` set ws)"
    by blast+
  have b2: "\<And>x. cls (foldl (mergeId a) ?st2 ws) x =
      joined (cls st) (cls st m \<union> \<Union> (cls st ` set (w # ws))) x"
    using a2 unfolding Weq by (simp only: J)
  have b3: "dom (equivalences (foldl (mergeId a) ?st2 ws)) =
      dom (equivalences st) \<union> \<Union> (cls st ` set (w # ws))"
    using a3 D by (rule trans)
  show ?case
    unfolding foldl_Cons using a1 b2 b3 by blast
qed

lemma unionIds_frame:
  "components (unionIds V st) = components st"
  "currentComponent (unionIds V st) = currentComponent st"
  by (simp_all add: unionIds_def Let_def foldl_mergeId_frame ensureClass_frame
      split: option.splits)

lemma unionIds_props:
  assumes inv: "eqInv st" and ne: "V \<noteq> []"
  shows "eqInv (unionIds V st)"
    and "cls (unionIds V st) x = joined (cls st) (\<Union> (cls st ` set V)) x"
    and "dom (equivalences (unionIds V st)) = dom (equivalences st) \<union> \<Union> (cls st ` set V)"
proof -
  let ?m = "Min (set V)"
  let ?st1 = "ensureClass ?m st"
  have mV: "?m \<in> set V" using ne by (simp add: Min_in)
  note e = ensureClass_props [OF inv, of ?m]
  from e(2) obtain a where a: "equivalences ?st1 ?m = Some a" by blast
  have u: "unionIds V st = foldl (mergeId a) ?st1 V"
    using a by (simp add: unionIds_def Let_def)
  have c1: "cls ?st1 = cls st" using e(3) by (rule ext)
  note f = foldl_mergeId [OF e(1) a, of V]
  have U: "cls st ?m \<union> \<Union> (cls st ` set V) = \<Union> (cls st ` set V)"
    using mV by blast
  have "?m \<in> cls st ?m" using inv by (rule cls_self)
  then have "?m \<in> dom (equivalences st) \<union> \<Union> (cls st ` set V)"
    using mV by blast
  then have D: "insert ?m (dom (equivalences st) \<union> \<Union> (cls st ` set V)) =
      dom (equivalences st) \<union> \<Union> (cls st ` set V)"
    by (rule insert_absorb)
  show "eqInv (unionIds V st)" using f by (simp add: u)
  show "cls (unionIds V st) x = joined (cls st) (\<Union> (cls st ` set V)) x"
    using f by (simp add: u c1 U)
  show "dom (equivalences (unionIds V st)) = dom (equivalences st) \<union> \<Union> (cls st ` set V)"
    using f by (simp add: u c1 e(4) D)
qed

section \<open>The invariant of the first pass\<close>

subsection \<open>The graph of labelled cells\<close>

lemma adjacent_sym: "adjacent c p q \<Longrightarrow> adjacent c q p"
  by (auto simp: adjacent_def)

lemma link_sym: "link m i c p q \<Longrightarrow> link m i c q p"
  by (simp add: link_def adjacent_sym)

lemma connected_refl [simp]: "connected m i c p p"
  by (simp add: connected_def)

lemma connected_trans: "connected m i c p q \<Longrightarrow> connected m i c q r \<Longrightarrow> connected m i c p r"
  by (simp add: connected_def)

lemma connected_sym: "connected m i c p q \<Longrightarrow> connected m i c q p"
proof -
  have "symp (link m i c)" by (auto intro: sympI link_sym)
  then have "symp (link m i c)\<^sup>*\<^sup>*" by (rule symp_rtranclp)
  then show "connected m i c p q \<Longrightarrow> connected m i c q p"
    by (simp add: connected_def sympD)
qed

lemma link_connected: "link m i c p q \<Longrightarrow> connected m i c p q"
  by (simp add: connected_def)

lemma touches_connected:
  "connected m i c p q \<Longrightarrow> touchesBorder m i c q \<Longrightarrow> touchesBorder m i c p"
  unfolding touchesBorder_def using connected_trans by blast

lemma touches_self:
  "inGrid (length m) p \<Longrightarrow> labelled m i p \<Longrightarrow> onBorder (length m) p \<Longrightarrow> touchesBorder m i c p"
  unfolding touchesBorder_def using connected_refl by blast

lemma linked_refl [simp]: "linked m i c p p"
  by (simp add: linked_def)

lemma linked_sym: "linked m i c p q \<Longrightarrow> linked m i c q p"
  unfolding linked_def using connected_sym by blast

lemma linked_trans: "linked m i c p q \<Longrightarrow> linked m i c q r \<Longrightarrow> linked m i c p r"
  unfolding linked_def
  using connected_trans touches_connected connected_sym by blast

lemma link_linked: "link m i c p q \<Longrightarrow> linked m i c p q"
  by (simp add: linked_def link_connected)

lemma linked_touches:
  "linked m i c p q \<Longrightarrow> touchesBorder m i c q \<Longrightarrow> touchesBorder m i c p"
  unfolding linked_def using touches_connected by blast

lemma touches_linked:
  "c = 8 \<Longrightarrow> touchesBorder m i c p \<Longrightarrow> touchesBorder m i c q \<Longrightarrow> linked m i c p q"
  by (simp add: linked_def)

subsection \<open>The invariant of the scan\<close>

lemma scanInvD:
  assumes "scanInv m i c vis st"
  shows "eqInv st" and "1 \<le> currentComponent st"
    and "\<And>k. k \<in> dom (equivalences st) \<Longrightarrow> 1 \<le> k \<and> k \<le> currentComponent st"
    and "\<And>p. vis p \<Longrightarrow> (labelOf st p = None \<longleftrightarrow> \<not> labelled m i p)"
    and "\<And>p l. vis p \<Longrightarrow> labelOf st p = Some l \<Longrightarrow> 1 \<le> l \<and> l \<le> currentComponent st"
    and "\<And>p. vis p \<Longrightarrow> labelled m i p \<Longrightarrow> onBorder (length m) p \<Longrightarrow> c = 8 \<Longrightarrow>
           labelOf st p = Some 1"
    and "\<And>p q l l'. vis p \<Longrightarrow> vis q \<Longrightarrow> labelOf st p = Some l \<Longrightarrow> labelOf st q = Some l' \<Longrightarrow>
           adjacent c p q \<Longrightarrow> l' \<in> cls st l"
    and "\<And>p q l l'. vis p \<Longrightarrow> vis q \<Longrightarrow> labelOf st p = Some l \<Longrightarrow> labelOf st q = Some l' \<Longrightarrow>
           l' \<in> cls st l \<Longrightarrow> linked m i c p q"
    and "\<And>p l. vis p \<Longrightarrow> labelOf st p = Some l \<Longrightarrow> 1 \<in> cls st l \<Longrightarrow>
           c = 8 \<and> touchesBorder m i c p"
proof -
  note a1 = assms [unfolded scanInv_def]
  note a2 = a1 [THEN conjunct2]
  note a3 = a2 [THEN conjunct2]
  note a4 = a3 [THEN conjunct2]
  note a5 = a4 [THEN conjunct2]
  note a6 = a5 [THEN conjunct2]
  note a7 = a6 [THEN conjunct2]
  note a8 = a7 [THEN conjunct2]
  note a9 = a8 [THEN conjunct2]
  show "eqInv st" using a1 by (rule conjunct1)
  show "1 \<le> currentComponent st" using a2 by (rule conjunct1)
  show "\<And>k. k \<in> dom (equivalences st) \<Longrightarrow> 1 \<le> k \<and> k \<le> currentComponent st"
    using a3 [THEN conjunct1, rule_format] .
  show "\<And>p. vis p \<Longrightarrow> (labelOf st p = None \<longleftrightarrow> \<not> labelled m i p)"
    using a4 [THEN conjunct1, rule_format] .
  show "\<And>p l. vis p \<Longrightarrow> labelOf st p = Some l \<Longrightarrow> 1 \<le> l \<and> l \<le> currentComponent st"
    using a5 [THEN conjunct1, rule_format] .
  show "\<And>p. vis p \<Longrightarrow> labelled m i p \<Longrightarrow> onBorder (length m) p \<Longrightarrow> c = 8 \<Longrightarrow>
           labelOf st p = Some 1"
    using a6 [THEN conjunct1, rule_format] .
  show "\<And>p q l l'. vis p \<Longrightarrow> vis q \<Longrightarrow> labelOf st p = Some l \<Longrightarrow> labelOf st q = Some l' \<Longrightarrow>
           adjacent c p q \<Longrightarrow> l' \<in> cls st l"
    using a7 [THEN conjunct1, rule_format] .
  show "\<And>p q l l'. vis p \<Longrightarrow> vis q \<Longrightarrow> labelOf st p = Some l \<Longrightarrow> labelOf st q = Some l' \<Longrightarrow>
           l' \<in> cls st l \<Longrightarrow> linked m i c p q"
    using a8 [THEN conjunct1, rule_format] .
  show "\<And>p l. vis p \<Longrightarrow> labelOf st p = Some l \<Longrightarrow> 1 \<in> cls st l \<Longrightarrow>
           c = 8 \<and> touchesBorder m i c p"
    using a9 [rule_format] .
qed


lemma scanInvI:
  assumes "eqInv st" and "1 \<le> currentComponent st"
    and "\<And>k. k \<in> dom (equivalences st) \<Longrightarrow> 1 \<le> k \<and> k \<le> currentComponent st"
    and "\<And>p. vis p \<Longrightarrow> (labelOf st p = None \<longleftrightarrow> \<not> labelled m i p)"
    and "\<And>p l. vis p \<Longrightarrow> labelOf st p = Some l \<Longrightarrow> 1 \<le> l \<and> l \<le> currentComponent st"
    and "\<And>p. vis p \<Longrightarrow> labelled m i p \<Longrightarrow> onBorder (length m) p \<Longrightarrow> c = 8 \<Longrightarrow>
           labelOf st p = Some 1"
    and "\<And>p q l l'. vis p \<Longrightarrow> vis q \<Longrightarrow> labelOf st p = Some l \<Longrightarrow> labelOf st q = Some l' \<Longrightarrow>
           adjacent c p q \<Longrightarrow> l' \<in> cls st l"
    and "\<And>p q l l'. vis p \<Longrightarrow> vis q \<Longrightarrow> labelOf st p = Some l \<Longrightarrow> labelOf st q = Some l' \<Longrightarrow>
           l' \<in> cls st l \<Longrightarrow> linked m i c p q"
    and "\<And>p l. vis p \<Longrightarrow> labelOf st p = Some l \<Longrightarrow> 1 \<in> cls st l \<Longrightarrow>
           c = 8 \<and> touchesBorder m i c p"
  shows "scanInv m i c vis st"
  unfolding scanInv_def using assms by blast

lemma cls_cong:
  "equivalences st' = equivalences st \<Longrightarrow> heap st' = heap st \<Longrightarrow> cls st' = cls st"
  by (rule ext) (simp add: cls_def split: option.splits)

lemma eqInv_cong:
  "equivalences st' = equivalences st \<Longrightarrow> heap st' = heap st \<Longrightarrow> nextAddr st' = nextAddr st \<Longrightarrow>
   eqInv st' = eqInv st"
  by (simp add: eqInv_def)

lemma cls_member_key:
  assumes "eqInv st" and "e \<in> cls st v"
  shows "e = v \<or> e \<in> dom (equivalences st)"
proof (cases "equivalences st v")
  case None
  with assms(2) show ?thesis by (simp add: cls_def)
next
  case (Some a)
  with assms(2) have "e \<in> set (heap st a)" by (simp add: cls_def)
  with assms(1) Some have "equivalences st e = Some a" unfolding eqInv_def by blast
  then show ?thesis by auto
qed

lemma cls_sym: "eqInv st \<Longrightarrow> a \<in> cls st b \<Longrightarrow> b \<in> cls st a"
  using cls_eq cls_self by blast

text \<open>Visiting a cell that the pass does not label.\<close>

lemma scanInv_null:
  assumes I: "scanInv m i c vis st"
    and vis': "\<And>p. vis' p \<longleftrightarrow> vis p \<or> p = x"
    and old: "\<And>p. vis p \<Longrightarrow> labelOf st' p = labelOf st p"
    and x: "\<not> labelled m i x" "labelOf st' x = None"
    and same: "equivalences st' = equivalences st" "heap st' = heap st"
      "nextAddr st' = nextAddr st" "currentComponent st' = currentComponent st"
  shows "scanInv m i c vis' st'"
proof -
  note D = scanInvD [OF I]
  have c: "cls st' = cls st" using same(1,2) by (rule cls_cong)
  have lab: "vis p \<and> labelOf st p = Some l" if "vis' p" "labelOf st' p = Some l" for p l
  proof -
    from that(2) x(2) have "p \<noteq> x" by auto
    with that(1) vis' have "vis p" by simp
    with that(2) old show ?thesis by simp
  qed
  show ?thesis
  proof (rule scanInvI)
    show "eqInv st'" using D(1) eqInv_cong [OF same(1,2,3)] by simp
    show "1 \<le> currentComponent st'" using D(2) same by simp
    show "\<And>k. k \<in> dom (equivalences st') \<Longrightarrow> 1 \<le> k \<and> k \<le> currentComponent st'"
      using D(3) same by simp
    show "labelOf st' p = None \<longleftrightarrow> \<not> labelled m i p" if "vis' p" for p
    proof (cases "p = x")
      case True then show ?thesis using x by simp
    next
      case False
      with that vis' have "vis p" by simp
      then show ?thesis using D(4) old by simp
    qed
    show "1 \<le> l \<and> l \<le> currentComponent st'" if "vis' p" "labelOf st' p = Some l" for p l
    proof -
      from lab [OF that] have "vis p" "labelOf st p = Some l" by simp_all
      from D(5) [OF this] show ?thesis by (simp add: same(4))
    qed
    show "labelOf st' p = Some 1"
      if "vis' p" "labelled m i p" "onBorder (length m) p" "c = 8" for p
    proof -
      from that(2) x(1) have "p \<noteq> x" by auto
      with that(1) vis' have "vis p" by simp
      then show ?thesis using D(6) that old by simp
    qed
    show "l' \<in> cls st' l"
      if "vis' p" "vis' q" "labelOf st' p = Some l" "labelOf st' q = Some l'" "adjacent c p q"
      for p q l l'
      unfolding c using lab [OF that(1,3)] lab [OF that(2,4)] that(5) D(7) by blast
    show "linked m i c p q"
      if "vis' p" "vis' q" "labelOf st' p = Some l" "labelOf st' q = Some l'" "l' \<in> cls st' l"
      for p q l l'
      using lab [OF that(1,3)] lab [OF that(2,4)] that(5) D(8) unfolding c by blast
    show "c = 8 \<and> touchesBorder m i c p"
      if "vis' p" "labelOf st' p = Some l" "1 \<in> cls st' l" for p l
      using lab [OF that(1,2)] that(3) D(9) unfolding c by blast
  qed
qed

text \<open>Visiting a labelled cell without a valid id: a fresh id.\<close>

lemma scanInv_fresh:
  assumes I: "scanInv m i c vis st"
    and vis': "\<And>p. vis' p \<longleftrightarrow> vis p \<or> p = x"
    and old: "\<And>p. vis p \<Longrightarrow> labelOf st' p = labelOf st p"
    and x: "labelled m i x" "labelOf st' x = Some (currentComponent st + 1)"
    and same: "equivalences st' = equivalences st" "heap st' = heap st"
      "nextAddr st' = nextAddr st" "currentComponent st' = currentComponent st + 1"
    and noNb: "\<And>q l. vis q \<Longrightarrow> adjacent c q x \<Longrightarrow> labelOf st q \<noteq> Some l"
    and noEdge: "\<not> (onBorder (length m) x \<and> c = 8)"
  shows "scanInv m i c vis' st'"
proof -
  note D = scanInvD [OF I]
  let ?f = "currentComponent st + 1"
  have c: "cls st' = cls st" using same(1,2) by (rule cls_cong)
  have nokey: "?f \<notin> dom (equivalences st)" using D(3) [of ?f] by auto
  then have clsf: "cls st ?f = {?f}" by (simp add: cls_def domIff)
  have lab: "(vis p \<and> labelOf st p = Some l \<and> l \<le> currentComponent st) \<or> (p = x \<and> l = ?f)"
    if "vis' p" "labelOf st' p = Some l" for p l
  proof (cases "p = x")
    case True with that(2) x(2) show ?thesis by simp
  next
    case False
    with that(1) vis' have v: "vis p" by simp
    with that(2) old have "labelOf st p = Some l" by simp
    with v D(5) show ?thesis by blast
  qed
  have notf: "?f \<notin> cls st l" if "l \<le> currentComponent st" for l
  proof
    assume "?f \<in> cls st l"
    from cls_member_key [OF D(1) this] nokey that show False by auto
  qed
  show ?thesis
  proof (rule scanInvI)
    show "eqInv st'" using D(1) eqInv_cong [OF same(1,2,3)] by simp
    show "1 \<le> currentComponent st'" using same by simp
    show "1 \<le> k \<and> k \<le> currentComponent st'" if "k \<in> dom (equivalences st')" for k
      using D(3) [of k] that same by auto
    show "labelOf st' p = None \<longleftrightarrow> \<not> labelled m i p" if "vis' p" for p
    proof (cases "p = x")
      case True then show ?thesis using x by simp
    next
      case False
      with that vis' have "vis p" by simp
      then show ?thesis using D(4) old by simp
    qed
    show "1 \<le> l \<and> l \<le> currentComponent st'" if "vis' p" "labelOf st' p = Some l" for p l
    proof -
      from lab [OF that] show ?thesis
      proof
        assume a: "vis p \<and> labelOf st p = Some l \<and> l \<le> currentComponent st"
        then have "vis p" "labelOf st p = Some l" by simp_all
        from D(5) [OF this] show ?thesis by (simp add: same(4))
      next
        assume "p = x \<and> l = ?f"
        then show ?thesis by (simp add: same(4))
      qed
    qed
    show "labelOf st' p = Some 1"
      if "vis' p" "labelled m i p" "onBorder (length m) p" "c = 8" for p
    proof -
      from that(3,4) noEdge have "p \<noteq> x" by auto
      with that(1) vis' have "vis p" by simp
      then show ?thesis using D(6) that old by simp
    qed
    show "l' \<in> cls st' l"
      if "vis' p" "vis' q" "labelOf st' p = Some l" "labelOf st' q = Some l'" "adjacent c p q"
      for p q l l'
    proof -
      have pq: "p \<noteq> q" using that(5) by (simp add: adjacent_def)
      show ?thesis
      proof (cases "p = x \<or> q = x")
        case True
        then have False
        proof
          assume px: "p = x"
          with pq lab [OF that(2,4)] have "vis q" "labelOf st q = Some l'" by auto
          moreover have "adjacent c q x" using that(5) px by (simp add: adjacent_sym)
          ultimately show False using noNb by blast
        next
          assume qx: "q = x"
          with pq lab [OF that(1,3)] have "vis p" "labelOf st p = Some l" by auto
          moreover have "adjacent c p x" using that(5) qx by simp
          ultimately show False using noNb by blast
        qed
        then show ?thesis ..
      next
        case False
        with lab [OF that(1,3)] lab [OF that(2,4)]
        have "vis p" "vis q" "labelOf st p = Some l" "labelOf st q = Some l'" by auto
        then show ?thesis unfolding c using D(7) that(5) by blast
      qed
    qed
    show "linked m i c p q"
      if "vis' p" "vis' q" "labelOf st' p = Some l" "labelOf st' q = Some l'" "l' \<in> cls st' l"
      for p q l l'
    proof -
      have mem: "l' \<in> cls st l" using that(5) by (simp add: c)
      from lab [OF that(1,3)] show ?thesis
      proof
        assume p: "vis p \<and> labelOf st p = Some l \<and> l \<le> currentComponent st"
        then have "l' \<noteq> ?f" using notf mem by blast
        with lab [OF that(2,4)] have "vis q \<and> labelOf st q = Some l'" by auto
        with p mem show ?thesis using D(8) by blast
      next
        assume p: "p = x \<and> l = ?f"
        with mem clsf have "l' = ?f" by simp
        with lab [OF that(2,4)] have "q = x" by auto
        with p show ?thesis by simp
      qed
    qed
    show "c = 8 \<and> touchesBorder m i c p"
      if "vis' p" "labelOf st' p = Some l" "1 \<in> cls st' l" for p l
    proof -
      have mem: "1 \<in> cls st l" using that(3) by (simp add: c)
      from lab [OF that(1,2)] show ?thesis
      proof
        assume "vis p \<and> labelOf st p = Some l \<and> l \<le> currentComponent st"
        with mem show ?thesis using D(9) by blast
      next
        assume "p = x \<and> l = ?f"
        with mem clsf D(2) show ?thesis by simp
      qed
    qed
  qed
qed

text \<open>Visiting a labelled cell with valid ids: the cell gets the least of them, and
  their classes are joined.\<close>

lemma scanInv_join:
  assumes I: "scanInv m i c vis st"
    and vis': "\<And>p. vis' p \<longleftrightarrow> vis p \<or> p = x"
    and visGrid: "\<And>p. vis p \<Longrightarrow> inGrid (length m) p"
    and old: "\<And>p. vis p \<Longrightarrow> labelOf st' p = labelOf st p"
    and xg: "inGrid (length m) x"
    and x: "labelled m i x" "labelOf st' x = Some mn"
    and mn: "mn \<in> V" "\<And>v. v \<in> V \<Longrightarrow> mn \<le> v"
    and charV: "\<And>v. v \<in> V \<longleftrightarrow>
        (\<exists>q. vis q \<and> adjacent c q x \<and> labelOf st q = Some v) \<or>
        (v = 1 \<and> onBorder (length m) x \<and> c = 8)"
    and post: "eqInv st'" "currentComponent st' = currentComponent st"
      "\<And>y. cls st' y = joined (cls st) (\<Union> (cls st ` V)) y"
      "dom (equivalences st') \<subseteq> dom (equivalences st) \<union> \<Union> (cls st ` V)"
  shows "scanInv m i c vis' st'"
proof -
  note D = scanInvD [OF I]
  let ?U = "\<Union> (cls st ` V)"
  have VU: "v \<in> ?U" if "v \<in> V" for v
    using that cls_self [OF D(1), of v] by blast
  have Usub: "cls st l \<subseteq> ?U" if "l \<in> ?U" for l
  proof -
    from that obtain v where "v \<in> V" "l \<in> cls st v" by blast
    with cls_eq [OF D(1)] show ?thesis by blast
  qed
  have inU: "cls st' l = ?U" if "l \<in> ?U" for l
    using that by (simp add: post(3) joined_def)
  have outU: "cls st' l = cls st l" if "l \<notin> ?U" for l
    using that by (simp add: post(3) joined_def)
  have mono: "l' \<in> cls st' l" if "l' \<in> cls st l" for l l'
  proof (cases "l \<in> ?U")
    case True
    with Usub that inU show ?thesis by blast
  next
    case False
    with that outU show ?thesis by simp
  qed
  have F1: "1 \<le> v \<and> v \<le> currentComponent st" if "v \<in> V" for v
  proof -
    from that charV [of v] consider q where "vis q" "labelOf st q = Some v"
      | "v = 1" by blast
    then show ?thesis
    proof cases
      case 1 then show ?thesis using D(5) by blast
    next
      case 2 then show ?thesis using D(2) by simp
    qed
  qed
  have F2: "1 \<le> e \<and> e \<le> currentComponent st" if "e \<in> ?U" for e
  proof -
    from that obtain v where v: "v \<in> V" "e \<in> cls st v" by blast
    from cls_member_key [OF D(1) v(2)] show ?thesis
    proof
      assume "e = v" with F1 [OF v(1)] show ?thesis by simp
    next
      assume "e \<in> dom (equivalences st)" then show ?thesis by (rule D(3))
    qed
  qed
  have nbLink: "linked m i c q x" if "vis q" "adjacent c q x" "labelOf st q = Some v" for q v
  proof -
    have "labelled m i q" using D(4) [OF that(1)] that(3) by auto
    with that(1,2) visGrid xg x(1) have "link m i c q x" by (simp add: link_def)
    then show ?thesis by (rule link_linked)
  qed
  have F3: "linked m i c p x" if "vis p" "labelOf st p = Some l" "l \<in> ?U" for p l
  proof -
    from that(3) obtain v where v: "v \<in> V" "l \<in> cls st v" by blast
    from v(1) charV [of v] consider q where "vis q" "adjacent c q x" "labelOf st q = Some v"
      | "v = 1" "onBorder (length m) x" "c = 8" by blast
    then show ?thesis
    proof cases
      case 1
      have "linked m i c q p" using D(8) [OF 1(1) that(1) 1(3) that(2) v(2)] .
      then have "linked m i c p q" by (rule linked_sym)
      moreover have "linked m i c q x" using nbLink [OF 1] .
      ultimately show ?thesis by (rule linked_trans)
    next
      case 2
      have "1 \<in> cls st l" using v(2) 2(1) cls_sym [OF D(1)] by blast
      then have "touchesBorder m i c p" using D(9) [OF that(1,2)] by blast
      moreover have "touchesBorder m i c x" using xg x(1) 2(2) by (rule touches_self)
      ultimately show ?thesis using 2(3) by (simp add: touches_linked)
    qed
  qed
  have F4: "c = 8 \<and> touchesBorder m i c x" if "1 \<in> ?U"
  proof -
    from that obtain v where v: "v \<in> V" "1 \<in> cls st v" by blast
    from v(1) charV [of v] consider q where "vis q" "adjacent c q x" "labelOf st q = Some v"
      | "v = 1" "onBorder (length m) x" "c = 8" by blast
    then show ?thesis
    proof cases
      case 1
      have t: "c = 8 \<and> touchesBorder m i c q" using D(9) [OF 1(1) 1(3) v(2)] .
      have "linked m i c x q" using nbLink [OF 1] by (rule linked_sym)
      with t show ?thesis using linked_touches by blast
    next
      case 2
      then show ?thesis using xg x(1) touches_self by blast
    qed
  qed
  have lab: "(vis p \<and> labelOf st p = Some l) \<or> (p = x \<and> l = mn)"
    if "vis' p" "labelOf st' p = Some l" for p l
  proof (cases "p = x")
    case True with that(2) x(2) show ?thesis by simp
  next
    case False
    with that(1) vis' have v: "vis p" by simp
    with that(2) old show ?thesis by simp
  qed
  have mnU: "mn \<in> ?U" using mn(1) by (rule VU)
  have toX: "linked m i c p x" if "vis' p" "labelOf st' p = Some l" "l \<in> ?U" for p l
  proof -
    from lab [OF that(1,2)] show ?thesis
    proof
      assume "vis p \<and> labelOf st p = Some l"
      then show ?thesis using F3 that(3) by blast
    next
      assume "p = x \<and> l = mn"
      then show ?thesis by simp
    qed
  qed
  have notU: "vis p \<and> labelOf st p = Some l" if "vis' p" "labelOf st' p = Some l" "l \<notin> ?U"
    for p l
    using lab [OF that(1,2)] that(3) mnU by auto
  show ?thesis
  proof (rule scanInvI)
    show "eqInv st'" by (rule post(1))
    show "1 \<le> currentComponent st'" using D(2) post(2) by simp
    show "1 \<le> k \<and> k \<le> currentComponent st'" if "k \<in> dom (equivalences st')" for k
    proof -
      from that post(4) have "k \<in> dom (equivalences st) \<or> k \<in> ?U" by blast
      then show ?thesis using D(3) F2 post(2) by auto
    qed
    show "labelOf st' p = None \<longleftrightarrow> \<not> labelled m i p" if "vis' p" for p
    proof (cases "p = x")
      case True then show ?thesis using x by simp
    next
      case False
      with that vis' have "vis p" by simp
      then show ?thesis using D(4) old by simp
    qed
    show "1 \<le> l \<and> l \<le> currentComponent st'" if "vis' p" "labelOf st' p = Some l" for p l
    proof -
      from lab [OF that] show ?thesis
      proof
        assume a: "vis p \<and> labelOf st p = Some l"
        then have "vis p" "labelOf st p = Some l" by simp_all
        from D(5) [OF this] show ?thesis by (simp add: post(2))
      next
        assume "p = x \<and> l = mn"
        then show ?thesis using F1 [OF mn(1)] by (simp add: post(2))
      qed
    qed
    show "labelOf st' p = Some 1"
      if "vis' p" "labelled m i p" "onBorder (length m) p" "c = 8" for p
    proof (cases "p = x")
      case True
      with that have "1 \<in> V" using charV [of 1] by simp
      with mn(2) F1 [OF mn(1)] have "mn = 1" by fastforce
      with True x(2) show ?thesis by simp
    next
      case False
      with that(1) vis' have "vis p" by simp
      then show ?thesis using D(6) that old by simp
    qed
    show "l' \<in> cls st' l"
      if "vis' p" "vis' q" "labelOf st' p = Some l" "labelOf st' q = Some l'" "adjacent c p q"
      for p q l l'
    proof -
      have pq: "p \<noteq> q" using that(5) by (simp add: adjacent_def)
      from lab [OF that(1,3)] lab [OF that(2,4)] pq
      consider "vis p" "labelOf st p = Some l" "vis q" "labelOf st q = Some l'"
        | "p = x" "l = mn" "vis q" "labelOf st q = Some l'"
        | "q = x" "l' = mn" "vis p" "labelOf st p = Some l" by blast
      then show ?thesis
      proof cases
        case 1
        then have "l' \<in> cls st l" using D(7) that(5) by blast
        then show ?thesis by (rule mono)
      next
        case 2
        have "adjacent c q x" using that(5) 2(1) by (simp add: adjacent_sym)
        with 2(3,4) have "l' \<in> V" using charV [of l'] by blast
        then have "l' \<in> ?U" by (rule VU)
        then show ?thesis using inU [OF mnU] 2(2) by simp
      next
        case 3
        have "adjacent c p x" using that(5) 3(1) by simp
        with 3(3,4) have "l \<in> V" using charV [of l] by blast
        then have "l \<in> ?U" by (rule VU)
        then show ?thesis using inU mnU 3(2) by simp
      qed
    qed
    show "linked m i c p q"
      if "vis' p" "vis' q" "labelOf st' p = Some l" "labelOf st' q = Some l'" "l' \<in> cls st' l"
      for p q l l'
    proof (cases "l \<in> ?U")
      case True
      then have "l' \<in> ?U" using that(5) inU by simp
      then have "linked m i c q x" using toX [OF that(2,4)] by simp
      then have "linked m i c x q" by (rule linked_sym)
      with toX [OF that(1,3) True] show ?thesis by (rule linked_trans)
    next
      case False
      then have mem: "l' \<in> cls st l" using that(5) outU by simp
      have p: "vis p \<and> labelOf st p = Some l" using notU [OF that(1,3) False] .
      have "l' \<notin> ?U"
      proof
        assume "l' \<in> ?U"
        then have "cls st l' \<subseteq> ?U" by (rule Usub)
        moreover have "l \<in> cls st l'" using mem cls_sym [OF D(1)] by blast
        ultimately show False using False by blast
      qed
      then have "vis q \<and> labelOf st q = Some l'" using notU [OF that(2,4)] by simp
      with p mem show ?thesis using D(8) by blast
    qed
    show "c = 8 \<and> touchesBorder m i c p"
      if "vis' p" "labelOf st' p = Some l" "1 \<in> cls st' l" for p l
    proof (cases "l \<in> ?U")
      case True
      then have "1 \<in> ?U" using that(3) inU by simp
      then have t: "c = 8 \<and> touchesBorder m i c x" by (rule F4)
      have "linked m i c p x" using toX [OF that(1,2) True] .
      with t show ?thesis using linked_touches by blast
    next
      case False
      then have "1 \<in> cls st l" using that(3) outU by simp
      with notU [OF that(1,2) False] show ?thesis using D(9) by blast
    qed
  qed
qed


subsection \<open>One step of the scan\<close>

lemma square_length: "square a n \<Longrightarrow> length a = n"
  by (simp add: square_def)

lemma square_nth: "square a n \<Longrightarrow> r < n \<Longrightarrow> length (a ! r) = n"
  by (simp add: square_def list_all_length)

lemma putCell_fields [simp]:
  "equivalences (putCell row v st) = equivalences st"
  "heap (putCell row v st) = heap st"
  "nextAddr (putCell row v st) = nextAddr st"
  "currentComponent (putCell row v st) = currentComponent st"
  "components (putCell row v st) = (components st)[row := components st ! row @ [v]]"
  by (simp_all add: putCell_def)

lemma labelOf_cong: "components st' = components st \<Longrightarrow> labelOf st' p = labelOf st p"
  by (simp add: labelOf_def)

lemma labelOf_putCell_old:
  assumes "scanShape n row col st" and "visited n row col p"
  shows "labelOf (putCell row v st) p = labelOf st p"
proof (cases "fst p = row")
  case True
  with assms(2) have "snd p < col" by (simp add: visited_def)
  moreover have "length (components st ! row) = col" "row < length (components st)"
    using assms(1) by (simp_all add: scanShape_def)
  ultimately show ?thesis using True by (simp add: labelOf_def nth_append)
next
  case False
  then show ?thesis by (simp add: labelOf_def)
qed

lemma labelOf_putCell_new:
  assumes "scanShape n row col st"
  shows "labelOf (putCell row v st) (row, col) = v"
proof -
  have "length (components st ! row) = col" "row < length (components st)"
    using assms by (simp_all add: scanShape_def)
  then show ?thesis by (simp add: labelOf_def nth_append)
qed

lemma scanShape_putCell:
  assumes "scanShape n row col st"
  shows "scanShape n row (Suc col) (putCell row v st)"
  using assms by (simp add: scanShape_def)

lemma scanShape_cong:
  "components st' = components st \<Longrightarrow> scanShape n row col st' = scanShape n row col st"
  by (simp add: scanShape_def)

lemma visited_Suc:
  assumes "row < n" "col < n"
  shows "visited n row (Suc col) p \<longleftrightarrow> visited n row col p \<or> p = (row, col)"
  using assms by (cases p) (auto simp: visited_def inGrid_def)

lemma visited_inGrid: "visited n row col p \<Longrightarrow> inGrid n p"
  by (simp add: visited_def)

lemma visited_neighbours:
  assumes "row < n" "col < n"
  shows "visited n row col q \<and> adjacent c q (row, col) \<longleftrightarrow>
     (col > 0 \<and> q = (row, col - 1)) \<or>
     (row > 0 \<and> q = (row - 1, col)) \<or>
     (col > 0 \<and> row > 0 \<and> c = 8 \<and> q = (row - 1, col - 1)) \<or>
     (col < n - 1 \<and> row > 0 \<and> c = 8 \<and> q = (row - 1, col + 1))"
    (is "?L \<longleftrightarrow> ?R")
proof (cases q)
  case (Pair r k)
  show ?thesis
  proof
    assume L: ?L
    then have rn: "r < n" and kn: "k < n"
      and before: "r < row \<or> (r = row \<and> k < col)"
      and near: "row \<le> r + 1" "k \<le> col + 1" "col \<le> k + 1"
      and dir: "c = 8 \<or> r = row \<or> k = col"
      unfolding Pair visited_def inGrid_def adjacent_def by simp_all
    show ?R
    proof (cases "r = row")
      case True
      with before near have "col > 0" "k = col - 1" by arith+
      with True Pair show ?thesis by simp
    next
      case False
      with before near have r: "row > 0" "r = row - 1" by arith+
      consider "k = col" | "col > 0" "k = col - 1" | "k = col + 1"
        using near by arith
      then show ?thesis
      proof cases
        case 1 with r Pair show ?thesis by simp
      next
        case 2
        with r(1) False dir have "c = 8" by arith
        with 2 r Pair show ?thesis by simp
      next
        case 3
        with False dir have "c = 8" by arith
        moreover from 3 kn have "col < n - 1" by arith
        ultimately show ?thesis using 3 r Pair by simp
      qed
    qed
  next
    assume R: ?R
    have g: "r < n \<and> k < n \<and> (r < row \<or> (r = row \<and> k < col)) \<and>
        (r, k) \<noteq> (row, col) \<and> r \<le> row + 1 \<and> row \<le> r + 1 \<and> k \<le> col + 1 \<and> col \<le> k + 1 \<and>
        (c = 8 \<or> r = row \<or> k = col)"
      using R assms unfolding Pair prod.inject by (elim disjE conjE) (simp, arith)+
    then show ?L
      unfolding Pair visited_def inGrid_def adjacent_def by simp
  qed
qed

lemma set_map_filter_id: "set (List.map_filter id xs) = {v. Some v \<in> set xs}"
  by (induction xs) (auto split: option.splits)

lemma set_validIdsAt:
  "v \<in> set (validIdsAt m c comps row col) \<longleftrightarrow>
     (col > 0 \<and> comps ! row ! (col - 1) = Some v) \<or>
     (row > 0 \<and> comps ! (row - 1) ! col = Some v) \<or>
     (col > 0 \<and> row > 0 \<and> c = 8 \<and> comps ! (row - 1) ! (col - 1) = Some v) \<or>
     (col < length m - 1 \<and> row > 0 \<and> c = 8 \<and> comps ! (row - 1) ! (col + 1) = Some v) \<or>
     ((col = 0 \<or> row = 0 \<or> col = length (m ! row) - 1 \<or> row = length m - 1) \<and>
      c = 8 \<and> v = 1)"
proof -
  have "v \<in> set (validIdsAt m c comps row col) \<longleftrightarrow>
      Some v \<in> {if col > 0 then comps ! row ! (col - 1) else None,
                if row > 0 then comps ! (row - 1) ! col else None,
                if col > 0 \<and> row > 0 \<and> c = 8 then comps ! (row - 1) ! (col - 1) else None,
                if col < length m - 1 \<and> row > 0 \<and> c = 8 then comps ! (row - 1) ! (col + 1)
                else None,
                if (col = 0 \<or> row = 0 \<or> col = length (m ! row) - 1 \<or> row = length m - 1)
                   \<and> c = 8 then Some 1 else None}"
    unfolding validIdsAt_def Let_def set_map_filter_id by simp
  also have "\<dots> \<longleftrightarrow>
     (col > 0 \<and> comps ! row ! (col - 1) = Some v) \<or>
     (row > 0 \<and> comps ! (row - 1) ! col = Some v) \<or>
     (col > 0 \<and> row > 0 \<and> c = 8 \<and> comps ! (row - 1) ! (col - 1) = Some v) \<or>
     (col < length m - 1 \<and> row > 0 \<and> c = 8 \<and> comps ! (row - 1) ! (col + 1) = Some v) \<or>
     ((col = 0 \<or> row = 0 \<or> col = length (m ! row) - 1 \<or> row = length m - 1) \<and>
      c = 8 \<and> v = 1)"
    unfolding insert_iff empty_iff
    by (intro arg_cong2 [where f = "(\<or>)"]) (auto split: if_splits)
  finally show ?thesis .
qed


lemma validIdsAt_char:
  assumes sq: "square m n" and rc: "row < n" "col < n"
  shows "v \<in> set (validIdsAt m c (components st) row col) \<longleftrightarrow>
     (\<exists>q. visited n row col q \<and> adjacent c q (row, col) \<and> labelOf st q = Some v) \<or>
     (v = 1 \<and> onBorder n (row, col) \<and> c = 8)"
proof -
  have len: "length m = n" "length (m ! row) = n"
    using sq rc by (simp_all add: square_length square_nth)
  have nb: "(\<exists>q. visited n row col q \<and> adjacent c q (row, col) \<and> labelOf st q = Some v) \<longleftrightarrow>
     (col > 0 \<and> components st ! row ! (col - 1) = Some v) \<or>
     (row > 0 \<and> components st ! (row - 1) ! col = Some v) \<or>
     (col > 0 \<and> row > 0 \<and> c = 8 \<and> components st ! (row - 1) ! (col - 1) = Some v) \<or>
     (col < n - 1 \<and> row > 0 \<and> c = 8 \<and> components st ! (row - 1) ! (col + 1) = Some v)"
    (is "?A \<longleftrightarrow> ?B")
  proof
    assume ?A
    then obtain q where q: "visited n row col q \<and> adjacent c q (row, col)"
      and l: "labelOf st q = Some v" by blast
    from q [unfolded visited_neighbours [OF rc]] l show ?B
      by (elim disjE conjE) (simp_all add: labelOf_def)
  next
    assume ?B
    then show ?A
    proof (elim disjE conjE)
      assume a: "col > 0" "components st ! row ! (col - 1) = Some v"
      then have "visited n row col (row, col - 1) \<and> adjacent c (row, col - 1) (row, col)"
        unfolding visited_neighbours [OF rc] by simp
      with a(2) show ?A unfolding labelOf_def by (metis fst_conv snd_conv)
    next
      assume a: "row > 0" "components st ! (row - 1) ! col = Some v"
      then have "visited n row col (row - 1, col) \<and> adjacent c (row - 1, col) (row, col)"
        unfolding visited_neighbours [OF rc] by simp
      with a(2) show ?A unfolding labelOf_def by (metis fst_conv snd_conv)
    next
      assume a: "col > 0" "row > 0" "c = 8" "components st ! (row - 1) ! (col - 1) = Some v"
      then have "visited n row col (row - 1, col - 1) \<and>
          adjacent c (row - 1, col - 1) (row, col)"
        unfolding visited_neighbours [OF rc] by simp
      with a(4) show ?A unfolding labelOf_def by (metis fst_conv snd_conv)
    next
      assume a: "col < n - 1" "row > 0" "c = 8" "components st ! (row - 1) ! (col + 1) = Some v"
      then have "visited n row col (row - 1, col + 1) \<and>
          adjacent c (row - 1, col + 1) (row, col)"
        unfolding visited_neighbours [OF rc] by simp
      with a(4) show ?A unfolding labelOf_def by (metis fst_conv snd_conv)
    qed
  qed
  have bd: "onBorder n (row, col) \<longleftrightarrow> (col = 0 \<or> row = 0 \<or> col = n - 1 \<or> row = n - 1)"
    by (auto simp: onBorder_def)
  show ?thesis
    unfolding set_validIdsAt nb bd len by blast
qed


lemma eqInv_putCell [simp]: "eqInv (putCell row v st) = eqInv st"
  by (rule eqInv_cong) simp_all

lemma joined_own_class:
  assumes "eqInv st"
  shows "joined (cls st) (\<Union> (cls st ` {v})) y = cls st y"
  using cls_eq [OF assms, of y v] by (simp add: joined_def)

lemma visit_inv:
  assumes sq: "square m n" and rc: "row < n" "col < n"
    and sh: "scanShape n row col st"
    and I: "scanInv m i c (visited n row col) st"
  shows "scanShape n row (Suc col) (visit m i c row st col) \<and>
         scanInv m i c (visited n row (Suc col)) (visit m i c row st col)"
proof -
  let ?x = "(row, col)"
  let ?V = "validIdsAt m c (components st) row col"
  note D = scanInvD [OF I]
  have len: "length m = n" using sq by (rule square_length)
  have vis': "\<And>p. visited n row (Suc col) p \<longleftrightarrow> visited n row col p \<or> p = ?x"
    using rc by (rule visited_Suc)
  have xg: "inGrid (length m) ?x" using rc len by (simp add: inGrid_def)
  have charV: "\<And>v. v \<in> set ?V \<longleftrightarrow>
      (\<exists>q. visited n row col q \<and> adjacent c q ?x \<and> labelOf st q = Some v) \<or>
      (v = 1 \<and> onBorder (length m) ?x \<and> c = 8)"
    unfolding len using sq rc by (rule validIdsAt_char)
  show ?thesis
  proof (cases "m ! row ! col = i")
    case True
    let ?st' = "putCell row None st"
    have v: "visit m i c row st col = ?st'" using True by (simp add: visit_def)
    have "scanInv m i c (visited n row (Suc col)) ?st'"
    proof (rule scanInv_null [OF I vis'])
      show "\<And>p. visited n row col p \<Longrightarrow> labelOf ?st' p = labelOf st p"
        using sh by (rule labelOf_putCell_old)
      show "\<not> labelled m i ?x" using True by (simp add: labelled_def)
      show "labelOf ?st' ?x = None" using sh by (rule labelOf_putCell_new)
    qed simp_all
    with scanShape_putCell [OF sh] show ?thesis unfolding v by blast
  next
    case False
    then have lx: "labelled m i ?x" by (simp add: labelled_def)
    show ?thesis
    proof (cases "length ?V = 0")
      case True
      let ?st0 = "st\<lparr>currentComponent := currentComponent st + 1\<rparr>"
      let ?st' = "putCell row (Some (currentComponent st + 1)) ?st0"
      have v: "visit m i c row st col = ?st'"
        using False True by (simp add: visit_def Let_def)
      have sh0: "scanShape n row col ?st0" using sh by (simp add: scanShape_def)
      have empty: "\<And>v. v \<notin> set ?V" using True by simp
      have "scanInv m i c (visited n row (Suc col)) ?st'"
      proof (rule scanInv_fresh [OF I vis'])
        show "labelOf ?st' p = labelOf st p" if "visited n row col p" for p
          using labelOf_putCell_old [OF sh0 that] by (simp add: labelOf_def)
        show "labelled m i ?x" by (rule lx)
        show "labelOf ?st' ?x = Some (currentComponent st + 1)"
          using sh0 by (rule labelOf_putCell_new)
        show "labelOf st q \<noteq> Some l" if "visited n row col q" "adjacent c q ?x" for q l
          using empty [of l] that unfolding charV by blast
        show "\<not> (onBorder (length m) ?x \<and> c = 8)"
          using empty [of 1] unfolding charV by blast
      qed simp_all
      with scanShape_putCell [OF sh0] show ?thesis unfolding v by blast
    next
      case ne: False
      then have Vne: "?V \<noteq> []" by simp
      let ?mn = "Min (set ?V)"
      have mnV: "?mn \<in> set ?V" using Vne by (simp add: Min_in)
      have mnle: "\<And>v. v \<in> set ?V \<Longrightarrow> ?mn \<le> v" by simp
      show ?thesis
      proof (cases "length ?V = 1")
        case True
        then obtain w where w: "?V = [w]" by (cases ?V) auto
        let ?st' = "putCell row (Some w) st"
        have v: "visit m i c row st col = ?st'"
          using False w by (simp add: visit_def Let_def)
        have mnw: "?mn = w" by (simp add: w)
        have c: "cls ?st' = cls st" by (rule cls_cong) simp_all
        have "scanInv m i c (visited n row (Suc col)) ?st'"
        proof (rule scanInv_join [OF I vis' _ _ xg lx _ mnV mnle charV])
          show "\<And>p. visited n row col p \<Longrightarrow> inGrid (length m) p"
            unfolding len by (rule visited_inGrid)
          show "\<And>p. visited n row col p \<Longrightarrow> labelOf ?st' p = labelOf st p"
            using sh by (rule labelOf_putCell_old)
          show "labelOf ?st' ?x = Some ?mn"
            unfolding mnw using sh by (rule labelOf_putCell_new)
          show "eqInv ?st'" using D(1) by simp
          show "currentComponent ?st' = currentComponent st" by simp
          show "\<And>y. cls ?st' y = joined (cls st) (\<Union> (cls st ` set ?V)) y"
            unfolding c w using joined_own_class [OF D(1)] by simp
          show "dom (equivalences ?st') \<subseteq> dom (equivalences st) \<union> \<Union> (cls st ` set ?V)"
            by simp
        qed
        with scanShape_putCell [OF sh] show ?thesis unfolding v by blast
      next
        case many: False
        let ?st1 = "putCell row (Some ?mn) st"
        let ?st' = "unionIds ?V ?st1"
        have v: "visit m i c row st col = ?st'"
          using False ne many by (simp add: visit_def Let_def)
        have c1: "cls ?st1 = cls st" by (rule cls_cong) simp_all
        have e1: "eqInv ?st1" using D(1) by simp
        note u = unionIds_props [OF e1 Vne]
        have comps: "components ?st' = components ?st1" by (rule unionIds_frame)
        have "scanInv m i c (visited n row (Suc col)) ?st'"
        proof (rule scanInv_join [OF I vis' _ _ xg lx _ mnV mnle charV])
          show "\<And>p. visited n row col p \<Longrightarrow> inGrid (length m) p"
            unfolding len by (rule visited_inGrid)
          show "labelOf ?st' p = labelOf st p" if "visited n row col p" for p
            using labelOf_putCell_old [OF sh that] labelOf_cong [OF comps] by simp
          show "labelOf ?st' ?x = Some ?mn"
            using labelOf_putCell_new [OF sh] labelOf_cong [OF comps] by simp
          show "eqInv ?st'" by (rule u(1))
          show "currentComponent ?st' = currentComponent st"
            by (simp add: unionIds_frame)
          show "\<And>y. cls ?st' y = joined (cls st) (\<Union> (cls st ` set ?V)) y"
            using u(2) unfolding c1 .
          show "dom (equivalences ?st') \<subseteq> dom (equivalences st) \<union> \<Union> (cls st ` set ?V)"
            using u(3) unfolding c1 by simp
        qed
        moreover have "scanShape n row (Suc col) ?st'"
          using scanShape_putCell [OF sh] scanShape_cong [OF comps] by simp
        ultimately show ?thesis unfolding v by blast
      qed
    qed
  qed
qed


subsection \<open>The whole first pass\<close>

lemma scanInv_relabel:
  assumes I: "scanInv m i c vis st"
    and same: "equivalences st' = equivalences st" "heap st' = heap st"
      "nextAddr st' = nextAddr st" "currentComponent st' = currentComponent st"
    and old: "\<And>p. vis p \<Longrightarrow> labelOf st' p = labelOf st p"
  shows "scanInv m i c vis st'"
proof -
  note D = scanInvD [OF I]
  have c: "cls st' = cls st" using same(1,2) by (rule cls_cong)
  show ?thesis
  proof (rule scanInvI)
    show "eqInv st'" using D(1) eqInv_cong [OF same(1,2,3)] by simp
    show "1 \<le> currentComponent st'" using D(2) same by simp
    show "\<And>k. k \<in> dom (equivalences st') \<Longrightarrow> 1 \<le> k \<and> k \<le> currentComponent st'"
      using D(3) same by simp
    show "\<And>p. vis p \<Longrightarrow> (labelOf st' p = None \<longleftrightarrow> \<not> labelled m i p)"
      using D(4) old by simp
    show "1 \<le> l \<and> l \<le> currentComponent st'" if "vis p" "labelOf st' p = Some l" for p l
    proof -
      have "labelOf st p = Some l" using that old by simp
      from D(5) [OF that(1) this] show ?thesis by (simp add: same(4))
    qed
    show "\<And>p. vis p \<Longrightarrow> labelled m i p \<Longrightarrow> onBorder (length m) p \<Longrightarrow> c = 8 \<Longrightarrow>
        labelOf st' p = Some 1"
      using D(6) old by simp
    show "l' \<in> cls st' l"
      if "vis p" "vis q" "labelOf st' p = Some l" "labelOf st' q = Some l'" "adjacent c p q"
      for p q l l'
    proof -
      have "labelOf st p = Some l" "labelOf st q = Some l'" using that old by simp_all
      from D(7) [OF that(1,2) this that(5)] show ?thesis by (simp add: c)
    qed
    show "linked m i c p q"
      if "vis p" "vis q" "labelOf st' p = Some l" "labelOf st' q = Some l'" "l' \<in> cls st' l"
      for p q l l'
    proof -
      have "labelOf st p = Some l" "labelOf st q = Some l'" "l' \<in> cls st l"
        using that old by (simp_all add: c)
      from D(8) [OF that(1,2) this] show ?thesis .
    qed
    show "c = 8 \<and> touchesBorder m i c p"
      if "vis p" "labelOf st' p = Some l" "1 \<in> cls st' l" for p l
    proof -
      have "labelOf st p = Some l" "1 \<in> cls st l" using that old by (simp_all add: c)
      from D(9) [OF that(1) this] show ?thesis .
    qed
  qed
qed

lemma scanCols_inv:
  assumes sq: "square m n" and row: "row < n" and k: "k \<le> n"
    and sh: "scanShape n row 0 st"
    and I: "scanInv m i c (visited n row 0) st"
  shows "scanShape n row k (foldl (visit m i c row) st [0..<k]) \<and>
         scanInv m i c (visited n row k) (foldl (visit m i c row) st [0..<k])"
  using k
proof (induction k)
  case 0
  with sh I show ?case by simp
next
  case (Suc k)
  then have "k < n" and IH: "scanShape n row k (foldl (visit m i c row) st [0..<k])"
    "scanInv m i c (visited n row k) (foldl (visit m i c row) st [0..<k])"
    by simp_all
  from visit_inv [OF sq row \<open>k < n\<close> IH] show ?case by simp
qed

lemma visited_row_end: "visited n row n = visited n (Suc row) 0"
  by (rule ext) (auto simp: visited_def inGrid_def)

lemma scanRow_inv:
  assumes sq: "square m n" and row: "row < n"
    and sh: "rowsShape n row st"
    and I: "scanInv m i c (visited n row 0) st"
  shows "rowsShape n (Suc row) (scanRow m i c st row) \<and>
         scanInv m i c (visited n (Suc row) 0) (scanRow m i c st row)"
proof -
  let ?st0 = "st\<lparr>components := components st @ [[]]\<rparr>"
  have len: "length (m ! row) = n" using sq row by (rule square_nth)
  have sh0: "scanShape n row 0 ?st0"
    using sh by (simp add: scanShape_def rowsShape_def nth_append)
  have I0: "scanInv m i c (visited n row 0) ?st0"
  proof (rule scanInv_relabel [OF I])
    show "labelOf ?st0 p = labelOf st p" if "visited n row 0 p" for p
    proof -
      from that have "fst p < length (components st)"
        using sh by (simp add: visited_def rowsShape_def)
      then show ?thesis by (simp add: labelOf_def nth_append)
    qed
  qed simp_all
  note r = scanCols_inv [OF sq row order_refl sh0 I0]
  have s: "scanRow m i c st row = foldl (visit m i c row) ?st0 [0..<n]"
    by (simp add: scanRow_def len)
  have "rowsShape n (Suc row) (scanRow m i c st row)"
    using r unfolding s scanShape_def rowsShape_def by (auto simp: less_Suc_eq)
  with r show ?thesis unfolding s visited_row_end by blast
qed

lemma scanInv_initial: "scanInv m i c (visited n 0 0) initialLabeler"
  by (rule scanInvI) (simp_all add: initialLabeler_def eqInv_def visited_def)

lemma scanRows_inv:
  assumes sq: "square m n" and k: "k \<le> n"
  shows "rowsShape n k (foldl (scanRow m i c) initialLabeler [0..<k]) \<and>
         scanInv m i c (visited n k 0) (foldl (scanRow m i c) initialLabeler [0..<k])"
  using k
proof (induction k)
  case 0
  show ?case using scanInv_initial by (simp add: rowsShape_def initialLabeler_def)
next
  case (Suc k)
  then have "k < n" and IH: "rowsShape n k (foldl (scanRow m i c) initialLabeler [0..<k])"
    "scanInv m i c (visited n k 0) (foldl (scanRow m i c) initialLabeler [0..<k])"
    by simp_all
  from scanRow_inv [OF sq \<open>k < n\<close> IH] show ?case by simp
qed

lemma visited_all: "visited n n 0 = inGrid n"
  by (rule ext) (auto simp: visited_def inGrid_def)

lemma firstPass_inv:
  assumes sq: "square m n"
  shows "rowsShape n n (firstPass m i c)" and "scanInv m i c (inGrid n) (firstPass m i c)"
  using scanRows_inv [OF sq order_refl, of i c]
  unfolding firstPass_def square_length [OF sq] visited_all by blast+

subsection \<open>The second pass\<close>

lemma resolveInvD:
  assumes "resolveInv st n vis acc"
  shows "length (fst acc) = n" and "\<And>r. r < n \<Longrightarrow> length (fst acc ! r) = n"
    and "\<And>p. inGrid n p \<Longrightarrow>
          fst acc ! fst p ! snd p = (if vis p then finalLabel st p else labelOf st p)"
    and "distinct (map fst (snd acc))"
    and "\<And>i x. (i, x) \<in> set (snd acc) \<Longrightarrow>
          \<exists>q. x = (int (fst q), int (snd q)) \<and> vis q \<and> finalLabel st q = Some i \<and>
              (\<forall>q'. vis q' \<longrightarrow> finalLabel st q' = Some i \<longrightarrow> rasterLe q q')"
    and "\<And>q i. vis q \<Longrightarrow> finalLabel st q = Some i \<Longrightarrow> i \<in> fst ` set (snd acc)"
proof -
  note a = assms [unfolded resolveInv_def]
  show "length (fst acc) = n" using a by (rule conjunct1)
  note b = a [THEN conjunct2]
  show "\<And>r. r < n \<Longrightarrow> length (fst acc ! r) = n" using b [THEN conjunct1] by (rule allE) blast
  note c = b [THEN conjunct2]
  show "\<And>p. inGrid n p \<Longrightarrow>
          fst acc ! fst p ! snd p = (if vis p then finalLabel st p else labelOf st p)"
    using c [THEN conjunct1, rule_format] .
  note d = c [THEN conjunct2]
  show "distinct (map fst (snd acc))" using d by (rule conjunct1)
  note e = d [THEN conjunct2]
  show "\<And>i x. (i, x) \<in> set (snd acc) \<Longrightarrow>
          \<exists>q. x = (int (fst q), int (snd q)) \<and> vis q \<and> finalLabel st q = Some i \<and>
              (\<forall>q'. vis q' \<longrightarrow> finalLabel st q' = Some i \<longrightarrow> rasterLe q q')"
    using e [THEN conjunct1, rule_format] .
  show "\<And>q i. vis q \<Longrightarrow> finalLabel st q = Some i \<Longrightarrow> i \<in> fst ` set (snd acc)"
    using e [THEN conjunct2, rule_format] .
qed

lemma rasterLe_refl: "rasterLe q q"
  by (simp add: rasterLe_def)

lemma visited_rasterLe: "visited n row col q \<Longrightarrow> rasterLe q (row, col)"
  by (auto simp: visited_def rasterLe_def)

lemma resolveCell_inv:
  assumes row: "row < n" and col: "col < n"
    and sh: "rowsShape n n st"
    and nz: "\<And>p. inGrid n p \<Longrightarrow> labelOf st p \<noteq> Some 0"
    and I: "resolveInv st n (visited n row col) acc"
  shows "resolveInv st n (visited n row (Suc col)) (resolveCell st row acc col)"
proof -
  note D = resolveInvD [OF I]
  let ?x = "(row, col)"
  have gx: "inGrid n ?x" using row col by (simp add: inGrid_def)
  have nvx: "\<not> visited n row col ?x" by (simp add: visited_def)
  have cur: "fst acc ! row ! col = labelOf st ?x" using D(3) [OF gx] nvx by simp
  note vS = visited_Suc [OF row col]
  show ?thesis
  proof (cases "labelOf st ?x")
    case None
    then have same: "resolveCell st row acc col = acc" by (simp add: resolveCell_def cur)
    have fx: "finalLabel st ?x = None" using None by (simp add: finalLabel_def)
    show ?thesis unfolding same resolveInv_def
    proof (intro conjI allI impI)
      show "length (fst acc) = n" by (rule D(1))
      show "\<And>r. r < n \<Longrightarrow> length (fst acc ! r) = n" by (rule D(2))
      show "fst acc ! fst p ! snd p =
          (if visited n row (Suc col) p then finalLabel st p else labelOf st p)"
        if "inGrid n p" for p
        using D(3) [OF that] None fx by (cases "p = ?x") (auto simp: vS)
      show "distinct (map fst (snd acc))" by (rule D(4))
      show "\<exists>q. x = (int (fst q), int (snd q)) \<and> visited n row (Suc col) q \<and>
          finalLabel st q = Some i \<and>
          (\<forall>q'. visited n row (Suc col) q' \<longrightarrow> finalLabel st q' = Some i \<longrightarrow> rasterLe q q')"
        if "(i, x) \<in> set (snd acc)" for i x
      proof -
        from D(5) [OF that] obtain q where q: "x = (int (fst q), int (snd q))"
          "visited n row col q" "finalLabel st q = Some i"
          "\<And>q'. visited n row col q' \<Longrightarrow> finalLabel st q' = Some i \<Longrightarrow> rasterLe q q'"
          by blast
        have "rasterLe q q'" if "visited n row (Suc col) q'" "finalLabel st q' = Some i" for q'
        proof (cases "q' = ?x")
          case True
          with that(2) fx show ?thesis by simp
        next
          case False
          with that(1) have "visited n row col q'" by (simp add: vS)
          then show ?thesis using that(2) by (rule q(4))
        qed
        moreover have "visited n row (Suc col) q" using q(2) by (simp add: vS)
        ultimately show ?thesis using q(1,3) by blast
      qed
      show "i \<in> fst ` set (snd acc)"
        if "visited n row (Suc col) q" "finalLabel st q = Some i" for q i
      proof (cases "q = ?x")
        case True
        with that(2) fx show ?thesis by simp
      next
        case False
        with that(1) have "visited n row col q" by (simp add: vS)
        then show ?thesis using that(2) by (rule D(6))
      qed
    qed
  next
    case (Some v)
    with nz [OF gx] have v0: "v \<noteq> 0" by auto
    let ?i = "canonical st v"
    let ?comps = "(fst acc)[row := (fst acc ! row)[col := Some ?i]]"
    let ?reg = "if map_of (snd acc) ?i \<noteq> None then snd acc
                else snd acc @ [(?i, (int row, int col))]"
    have step: "resolveCell st row acc col = (?comps, ?reg)"
      using Some v0 by (simp add: resolveCell_def cur Let_def)
    have fx: "finalLabel st ?x = Some ?i" using Some by (simp add: finalLabel_def)
    have key: "map_of (snd acc) ?i \<noteq> None \<longleftrightarrow> ?i \<in> fst ` set (snd acc)"
      by (simp add: map_of_eq_None_iff)
    show ?thesis unfolding step resolveInv_def fst_conv snd_conv
    proof (intro conjI allI impI)
      show "length ?comps = n" using D(1) by simp
      show "length (?comps ! r) = n" if "r < n" for r
        using D(1) D(2) [OF that] that by (cases "r = row") simp_all
      show "?comps ! fst p ! snd p =
          (if visited n row (Suc col) p then finalLabel st p else labelOf st p)"
        if g: "inGrid n p" for p
      proof (cases "p = ?x")
        case True
        then show ?thesis using D(1) D(2) [OF row] row col fx by (simp add: vS)
      next
        case False
        have "?comps ! fst p ! snd p = fst acc ! fst p ! snd p"
        proof (cases "fst p = row")
          case True
          with False have "snd p \<noteq> col" by (cases p) auto
          with True D(1) row show ?thesis by simp
        next
          case False
          then show ?thesis by simp
        qed
        with D(3) [OF g] False show ?thesis by (simp add: vS)
      qed
      show "distinct (map fst ?reg)" using D(4) key by auto
      show "\<exists>q. x = (int (fst q), int (snd q)) \<and> visited n row (Suc col) q \<and>
          finalLabel st q = Some i \<and>
          (\<forall>q'. visited n row (Suc col) q' \<longrightarrow> finalLabel st q' = Some i \<longrightarrow> rasterLe q q')"
        if mem: "(i, x) \<in> set ?reg" for i x
      proof (cases "(i, x) \<in> set (snd acc)")
        case True
        from D(5) [OF True] obtain q where q: "x = (int (fst q), int (snd q))"
          "visited n row col q" "finalLabel st q = Some i"
          "\<And>q'. visited n row col q' \<Longrightarrow> finalLabel st q' = Some i \<Longrightarrow> rasterLe q q'"
          by blast
        have "rasterLe q q'" if "visited n row (Suc col) q'" "finalLabel st q' = Some i" for q'
        proof (cases "q' = ?x")
          case True
          with visited_rasterLe [OF q(2)] show ?thesis by simp
        next
          case False
          with that(1) have "visited n row col q'" by (simp add: vS)
          then show ?thesis using that(2) by (rule q(4))
        qed
        moreover have "visited n row (Suc col) q" using q(2) by (simp add: vS)
        ultimately show ?thesis using q(1,3) by blast
      next
        case False
        with mem have new: "i = ?i" "x = (int row, int col)" "?i \<notin> fst ` set (snd acc)"
          using key by (auto split: if_splits)
        have none: "finalLabel st q' \<noteq> Some ?i" if "visited n row col q'" for q'
          using D(6) [OF that] new(3) by blast
        have "rasterLe ?x q'" if "visited n row (Suc col) q'" "finalLabel st q' = Some i" for q'
        proof (cases "q' = ?x")
          case True
          then show ?thesis by (simp add: rasterLe_refl)
        next
          case False
          with that(1) have "visited n row col q'" by (simp add: vS)
          from none [OF this] that(2) new(1) show ?thesis by simp
        qed
        moreover have "visited n row (Suc col) ?x" by (simp add: vS)
        moreover have "x = (int (fst ?x), int (snd ?x))" using new(2) by simp
        ultimately show ?thesis using new(1) fx by blast
      qed
      show "i \<in> fst ` set ?reg"
        if "visited n row (Suc col) q" "finalLabel st q = Some i" for q i
      proof (cases "q = ?x")
        case True
        with that(2) fx have "i = ?i" by simp
        then show ?thesis using key by auto
      next
        case False
        with that(1) have "visited n row col q" by (simp add: vS)
        from D(6) [OF this that(2)] show ?thesis by auto
      qed
    qed
  qed
qed

lemma resolveCols_inv:
  assumes row: "row < n" and k: "k \<le> n"
    and sh: "rowsShape n n st"
    and nz: "\<And>p. inGrid n p \<Longrightarrow> labelOf st p \<noteq> Some 0"
    and I: "resolveInv st n (visited n row 0) acc"
  shows "resolveInv st n (visited n row k) (foldl (resolveCell st row) acc [0..<k])"
  using k
proof (induction k)
  case 0
  with I show ?case by simp
next
  case (Suc k)
  then have "k < n" and IH: "resolveInv st n (visited n row k) (foldl (resolveCell st row) acc [0..<k])"
    by simp_all
  from resolveCell_inv [OF row \<open>k < n\<close> sh nz IH] show ?case by simp
qed

lemma resolveRow_inv:
  assumes row: "row < n"
    and sh: "rowsShape n n st"
    and nz: "\<And>p. inGrid n p \<Longrightarrow> labelOf st p \<noteq> Some 0"
    and I: "resolveInv st n (visited n row 0) acc"
  shows "resolveInv st n (visited n (Suc row) 0) (resolveRow st acc row)"
proof -
  have "length (fst acc ! row) = n" using resolveInvD(2) [OF I row] .
  then have "resolveRow st acc row = foldl (resolveCell st row) acc [0..<n]"
    by (simp add: resolveRow_def)
  with resolveCols_inv [OF row order_refl sh nz I] show ?thesis
    by (simp add: visited_row_end)
qed

lemma resolveInv_initial:
  assumes sh: "rowsShape n n st"
  shows "resolveInv st n (visited n 0 0) (components st, [])"
  using sh by (simp add: resolveInv_def rowsShape_def visited_def labelOf_def)

lemma resolveRows_inv:
  assumes k: "k \<le> n"
    and sh: "rowsShape n n st"
    and nz: "\<And>p. inGrid n p \<Longrightarrow> labelOf st p \<noteq> Some 0"
  shows "resolveInv st n (visited n k 0) (foldl (resolveRow st) (components st, []) [0..<k])"
  using k
proof (induction k)
  case 0
  show ?case using resolveInv_initial [OF sh] by simp
next
  case (Suc k)
  then have "k < n"
    and IH: "resolveInv st n (visited n k 0) (foldl (resolveRow st) (components st, []) [0..<k])"
    by simp_all
  from resolveRow_inv [OF \<open>k < n\<close> sh nz IH] show ?case by simp
qed

lemma resolve_inv:
  assumes sh: "rowsShape n n st"
    and nz: "\<And>p. inGrid n p \<Longrightarrow> labelOf st p \<noteq> Some 0"
  shows "resolveInv st n (inGrid n) (resolve st)"
proof -
  have "length (components st) = n" using sh by (simp add: rowsShape_def)
  then show ?thesis
    using resolveRows_inv [OF order_refl sh nz] by (simp add: resolve_def visited_all)
qed

subsection \<open>The states of the scan and the rule for one cell\<close>

lemma scanState_Suc:
  "scanState m i c row (Suc col) = visit m i c row (scanState m i c row col) col"
  by (simp add: scanState_def Let_def)

lemma scanState_row:
  "foldl (scanRow m i c) initialLabeler [0..<Suc row] = scanState m i c row (length (m ! row))"
  by (simp add: scanState_def scanRow_def Let_def)

lemma scanState_firstPass:
  "firstPass m i c =
     (if length m = 0 then initialLabeler
      else scanState m i c (length m - 1) (length (m ! (length m - 1))))"
proof (cases "length m")
  case 0
  then show ?thesis by (simp add: firstPass_def)
next
  case (Suc k)
  then show ?thesis unfolding firstPass_def Suc scanState_row by simp
qed

lemma scanState_inv:
  assumes sq: "square m n" and row: "row < n" and col: "col \<le> n"
  shows "scanShape n row col (scanState m i c row col)"
    and "scanInv m i c (visited n row col) (scanState m i c row col)"
proof -
  let ?st = "foldl (scanRow m i c) initialLabeler [0..<row]"
  let ?init = "?st\<lparr>components := components ?st @ [[]]\<rparr>"
  from row have "row \<le> n" by simp
  note r = scanRows_inv [OF sq this, of i c]
  have sh: "rowsShape n row ?st" using r by (rule conjunct1)
  have I: "scanInv m i c (visited n row 0) ?st" using r by (rule conjunct2)
  have sh0: "scanShape n row 0 ?init"
    using sh by (simp add: scanShape_def rowsShape_def nth_append)
  have I0: "scanInv m i c (visited n row 0) ?init"
  proof (rule scanInv_relabel [OF I])
    show "labelOf ?init p = labelOf ?st p" if "visited n row 0 p" for p
    proof -
      from that have "fst p < length (components ?st)"
        using sh by (simp add: visited_def rowsShape_def)
      then show ?thesis by (simp add: labelOf_def nth_append)
    qed
  qed simp_all
  have s: "scanState m i c row col = foldl (visit m i c row) ?init [0..<col]"
    by (simp add: scanState_def Let_def)
  from scanCols_inv [OF sq row col sh0 I0]
  show "scanShape n row col (scanState m i c row col)"
    and "scanInv m i c (visited n row col) (scanState m i c row col)"
    unfolding s by blast+
qed

lemma visit_label:
  assumes sh: "scanShape n row col st"
  shows "labelOf (visit m i c row st col) (row, col) =
     (if m ! row ! col = i then None
      else if length (validIdsAt m c (components st) row col) = 0
           then Some (currentComponent st + 1)
      else if length (validIdsAt m c (components st) row col) = 1
           then Some (validIdsAt m c (components st) row col ! 0)
      else Some (Min (set (validIdsAt m c (components st) row col))))"
proof -
  have sh': "scanShape n row col (st\<lparr>currentComponent := currentComponent st + 1\<rparr>)"
    using sh by (simp add: scanShape_def)
  have u: "labelOf (unionIds V (putCell row v st)) (row, col) = v" for V v
    using labelOf_putCell_new [OF sh, of v]
    by (simp add: labelOf_def unionIds_frame)
  show ?thesis
    using labelOf_putCell_new [OF sh] labelOf_putCell_new [OF sh'] u
    by (simp add: visit_def Let_def)
qed

lemma visit_old_labels:
  assumes sh: "scanShape n row col st" and v: "visited n row col p"
  shows "labelOf (visit m i c row st col) p = labelOf st p"
proof -
  have sh': "scanShape n row col (st\<lparr>currentComponent := currentComponent st + 1\<rparr>)"
    using sh by (simp add: scanShape_def)
  have u: "labelOf (unionIds V (putCell row x st)) p = labelOf st p" for V x
    using labelOf_putCell_old [OF sh v, of x]
    by (simp add: labelOf_def unionIds_frame)
  have w: "labelOf (putCell row x (st\<lparr>currentComponent := currentComponent st + 1\<rparr>)) p =
      labelOf st p" for x
    using labelOf_putCell_old [OF sh' v, of x] by (simp add: labelOf_def)
  show ?thesis
    using labelOf_putCell_old [OF sh v] w u
    by (simp add: visit_def Let_def)
qed

lemma visit_cls:
  assumes inv: "eqInv st"
  shows "cls (visit m i c row st col) x =
     (if m ! row ! col \<noteq> i \<and> 2 \<le> length (validIdsAt m c (components st) row col)
      then joined (cls st) (\<Union> (cls st ` set (validIdsAt m c (components st) row col))) x
      else cls st x)"
proof -
  let ?V = "validIdsAt m c (components st) row col"
  have p: "cls (putCell row v s) = cls s" for v s
    by (rule cls_cong) simp_all
  have q: "cls (st\<lparr>currentComponent := k\<rparr>) = cls st" for k
    by (rule cls_cong) simp_all
  show ?thesis
  proof (cases "m ! row ! col \<noteq> i \<and> 2 \<le> length ?V")
    case True
    then have "0 < length ?V" by linarith
    then have ne: "?V \<noteq> []" by simp
    let ?s = "putCell row (Some (Min (set ?V))) st"
    have e: "eqInv ?s" using inv by simp
    have "length ?V \<noteq> 0" using ne by simp
    moreover have "length ?V \<noteq> 1" using True by linarith
    moreover have "m ! row ! col \<noteq> i" using True by simp
    ultimately have "visit m i c row st col = unionIds ?V ?s"
      unfolding visit_def Let_def by (simp only: if_False)
    with unionIds_props(2) [OF e ne, of x] True show ?thesis by (simp add: p)
  next
    case False
    then consider "m ! row ! col = i" | "m ! row ! col \<noteq> i" "length ?V = 0"
      | "m ! row ! col \<noteq> i" "length ?V = 1"
      by linarith
    then have "cls (visit m i c row st col) = cls st"
    proof cases
      case 1
      then show ?thesis by (simp add: visit_def p)
    next
      case 2
      then show ?thesis by (simp add: visit_def Let_def p q)
    next
      case 3
      then show ?thesis by (simp add: visit_def Let_def p q)
    qed
    then have "cls (visit m i c row st col) x = cls st x" by simp
    then show ?thesis using False by (simp only: if_False)
  qed
qed

subsection \<open>The final labels\<close>

lemma cls_ge_1:
  assumes I: "scanInv m i c vis st" and p: "vis p" "labelOf st p = Some l" and e: "e \<in> cls st l"
  shows "1 \<le> e"
proof -
  note D = scanInvD [OF I]
  from cls_member_key [OF D(1) e] show ?thesis
  proof
    assume "e = l"
    with D(5) [OF p] show ?thesis by simp
  next
    assume "e \<in> dom (equivalences st)"
    from D(3) [OF this] show ?thesis by simp
  qed
qed

lemma canonical_in: "eqInv st \<Longrightarrow> canonical st l \<in> cls st l"
  unfolding canonical_cls using cls_self [of st l] cls_finite [of st l]
  by (intro Min_in) auto

lemma canonical_eq_iff:
  assumes inv: "eqInv st"
  shows "canonical st l = canonical st l' \<longleftrightarrow> l' \<in> cls st l"
proof
  assume eq: "canonical st l = canonical st l'"
  have a: "canonical st l \<in> cls st l" using canonical_in [OF inv, of l] .
  have b: "canonical st l \<in> cls st l'" using canonical_in [OF inv, of l'] eq by simp
  have "cls st (canonical st l) = cls st l" using a by (rule cls_eq [OF inv])
  moreover have "cls st (canonical st l) = cls st l'" using b by (rule cls_eq [OF inv])
  ultimately have "cls st l = cls st l'" by simp
  with cls_self [OF inv, of l'] show "l' \<in> cls st l" by simp
next
  assume "l' \<in> cls st l"
  from cls_eq [OF inv this] show "canonical st l = canonical st l'"
    by (simp add: canonical_cls)
qed

lemma canonical_one:
  assumes I: "scanInv m i c vis st" and p: "vis p" "labelOf st p = Some l"
  shows "canonical st l = 1 \<longleftrightarrow> 1 \<in> cls st l"
proof
  assume "canonical st l = 1"
  with canonical_in [OF scanInvD(1) [OF I], of l] show "1 \<in> cls st l" by simp
next
  assume one: "1 \<in> cls st l"
  have "canonical st l \<le> 1"
    unfolding canonical_cls using one cls_finite [of st l] by (intro Min_le) auto
  moreover have "1 \<le> canonical st l"
    using cls_ge_1 [OF I p canonical_in [OF scanInvD(1) [OF I]]] .
  ultimately show "canonical st l = 1" by simp
qed

lemma finalLabel_None:
  assumes I: "scanInv m i c vis st" and p: "vis p"
  shows "finalLabel st p = None \<longleftrightarrow> \<not> labelled m i p"
  using scanInvD(4) [OF I p] by (simp add: finalLabel_def)

lemma finalLabel_ge_1:
  assumes I: "scanInv m i c vis st" and p: "vis p" and f: "finalLabel st p = Some k"
  shows "1 \<le> k"
proof -
  from f obtain l where l: "labelOf st p = Some l" "k = canonical st l"
    by (auto simp: finalLabel_def)
  from cls_ge_1 [OF I p l(1) canonical_in [OF scanInvD(1) [OF I]]] l(2) show ?thesis by simp
qed

lemma finalLabel_link:
  assumes I: "scanInv m i c (inGrid (length m)) st" and l: "link m i c p q"
  shows "finalLabel st p = finalLabel st q"
proof -
  note D = scanInvD [OF I]
  from l have g: "inGrid (length m) p" "inGrid (length m) q"
    and lab: "labelled m i p" "labelled m i q" and adj: "adjacent c p q"
    by (simp_all add: link_def)
  from D(4) [OF g(1)] D(4) [OF g(2)] lab obtain a b where
    ab: "labelOf st p = Some a" "labelOf st q = Some b" by auto
  from D(7) [OF g ab adj] have "b \<in> cls st a" .
  then have "canonical st a = canonical st b" using canonical_eq_iff [OF D(1)] by simp
  with ab show ?thesis by (simp add: finalLabel_def)
qed

lemma finalLabel_connected:
  assumes I: "scanInv m i c (inGrid (length m)) st" and cn: "connected m i c p q"
  shows "finalLabel st p = finalLabel st q"
  using cn unfolding connected_def
proof (induction rule: rtranclp_induct)
  case base
  show ?case by simp
next
  case (step y z)
  with finalLabel_link [OF I step(2)] show ?case by simp
qed

lemma finalLabel_sound:
  assumes I: "scanInv m i c (inGrid (length m)) st"
    and g: "inGrid (length m) p" "inGrid (length m) q"
    and f: "finalLabel st p = Some k" "finalLabel st q = Some k"
  shows "linked m i c p q"
proof -
  note D = scanInvD [OF I]
  from f obtain a b where ab: "labelOf st p = Some a" "labelOf st q = Some b"
    and c: "canonical st a = canonical st b"
    by (auto simp: finalLabel_def)
  from c have "b \<in> cls st a" using canonical_eq_iff [OF D(1)] by simp
  from D(8) [OF g ab this] show ?thesis .
qed

lemma finalLabel_one:
  assumes I: "scanInv m i c (inGrid (length m)) st" and g: "inGrid (length m) p"
  shows "finalLabel st p = Some 1 \<longleftrightarrow> labelled m i p \<and> c = 8 \<and> touchesBorder m i c p"
proof
  assume f: "finalLabel st p = Some 1"
  then obtain l where l: "labelOf st p = Some l" "canonical st l = 1"
    by (auto simp: finalLabel_def)
  from l(2) have "1 \<in> cls st l" using canonical_one [OF I g l(1)] by simp
  from scanInvD(9) [OF I g l(1) this] have "c = 8 \<and> touchesBorder m i c p" .
  moreover have "labelled m i p" using finalLabel_None [OF I g] f by auto
  ultimately show "labelled m i p \<and> c = 8 \<and> touchesBorder m i c p" by blast
next
  assume a: "labelled m i p \<and> c = 8 \<and> touchesBorder m i c p"
  then obtain e where e: "inGrid (length m) e" "labelled m i e" "onBorder (length m) e"
    "connected m i c p e"
    unfolding touchesBorder_def by blast
  from a have c8: "c = 8" by simp
  from scanInvD(6) [OF I e(1,2,3) c8] have le: "labelOf st e = Some 1" .
  have "1 \<in> cls st 1" using cls_self [OF scanInvD(1) [OF I]] .
  then have "canonical st 1 = 1" using canonical_one [OF I e(1) le] by simp
  with le have "finalLabel st e = Some 1" by (simp add: finalLabel_def)
  with finalLabel_connected [OF I e(4)] show "finalLabel st p = Some 1" by simp
qed

subsection \<open>The result of the labeler\<close>

lemma firstPass_nonzero:
  assumes sq: "square m n" and g: "inGrid n p"
  shows "labelOf (firstPass m i c) p \<noteq> Some 0"
proof
  assume "labelOf (firstPass m i c) p = Some 0"
  from scanInvD(5) [OF firstPass_inv(2) [OF sq] g this] show False by simp
qed

lemma bcc_inv:
  assumes sq: "square m n"
  shows "resolveInv (firstPass m i c) n (inGrid n) (buildConnectedComponents m i c)"
  unfolding buildConnectedComponents_def
  using firstPass_inv(1) [OF sq] firstPass_nonzero [OF sq]
  by (rule resolve_inv)

lemma bcc_shape:
  assumes sq: "square m n"
  shows "length (fst (buildConnectedComponents m i c)) = n"
    and "\<And>r. r < n \<Longrightarrow> length (fst (buildConnectedComponents m i c) ! r) = n"
  using resolveInvD(1,2) [OF bcc_inv [OF sq]] by blast+

lemma bcc_cell:
  assumes sq: "square m n" and g: "inGrid n p"
  shows "fst (buildConnectedComponents m i c) ! fst p ! snd p = finalLabel (firstPass m i c) p"
  using resolveInvD(3) [OF bcc_inv [OF sq] g] g by simp

lemma bcc_None:
  assumes sq: "square m n" and g: "inGrid n p"
  shows "fst (buildConnectedComponents m i c) ! fst p ! snd p = None \<longleftrightarrow>
     m ! fst p ! snd p = i"
  unfolding bcc_cell [OF sq g]
  using finalLabel_None [OF firstPass_inv(2) [OF sq] g] by (simp add: labelled_def)

lemma bcc_ge_1:
  assumes sq: "square m n" and g: "inGrid n p"
    and l: "fst (buildConnectedComponents m i c) ! fst p ! snd p = Some k"
  shows "1 \<le> k"
  using finalLabel_ge_1 [OF firstPass_inv(2) [OF sq] g] l unfolding bcc_cell [OF sq g] by simp

lemma bcc_same_iff:
  assumes sq: "square m n" and g: "inGrid n p" "inGrid n q"
    and lab: "labelled m i p" "labelled m i q"
  shows "fst (buildConnectedComponents m i c) ! fst p ! snd p =
         fst (buildConnectedComponents m i c) ! fst q ! snd q \<longleftrightarrow> linked m i c p q"
proof -
  let ?st = "firstPass m i c"
  have len: "length m = n" using sq by (rule square_length)
  have I: "scanInv m i c (inGrid (length m)) ?st" unfolding len by (rule firstPass_inv(2) [OF sq])
  have gl: "inGrid (length m) p" "inGrid (length m) q" using g len by simp_all
  from finalLabel_None [OF I gl(1)] lab(1) obtain k where k: "finalLabel ?st p = Some k" by auto
  have "finalLabel ?st p = finalLabel ?st q \<longleftrightarrow> linked m i c p q"
  proof
    assume "finalLabel ?st p = finalLabel ?st q"
    with k have "finalLabel ?st q = Some k" by simp
    from finalLabel_sound [OF I gl k this] show "linked m i c p q" .
  next
    assume "linked m i c p q"
    then show "finalLabel ?st p = finalLabel ?st q"
      unfolding linked_def
    proof
      assume "connected m i c p q"
      then show ?thesis by (rule finalLabel_connected [OF I])
    next
      assume a: "c = 8 \<and> touchesBorder m i c p \<and> touchesBorder m i c q"
      have "finalLabel ?st p = Some 1" using finalLabel_one [OF I gl(1)] a lab(1) by blast
      moreover have "finalLabel ?st q = Some 1" using finalLabel_one [OF I gl(2)] a lab(2) by blast
      ultimately show ?thesis by simp
    qed
  qed
  then show ?thesis unfolding bcc_cell [OF sq g(1)] bcc_cell [OF sq g(2)] .
qed

lemma bcc_one:
  assumes sq: "square m n" and g: "inGrid n p"
  shows "fst (buildConnectedComponents m i c) ! fst p ! snd p = Some 1 \<longleftrightarrow>
     labelled m i p \<and> c = 8 \<and> touchesBorder m i c p"
proof -
  have len: "length m = n" using sq by (rule square_length)
  have I: "scanInv m i c (inGrid (length m)) (firstPass m i c)"
    unfolding len by (rule firstPass_inv(2) [OF sq])
  have gl: "inGrid (length m) p" using g len by simp
  show ?thesis unfolding bcc_cell [OF sq g] by (rule finalLabel_one [OF I gl])
qed

lemma bcc_registry:
  assumes sq: "square m n" and mem: "(k, x) \<in> set (snd (buildConnectedComponents m i c))"
  shows "\<exists>q. x = (int (fst q), int (snd q)) \<and>
     firstWith n (fst (buildConnectedComponents m i c)) k q"
proof -
  let ?st = "firstPass m i c"
  from resolveInvD(5) [OF bcc_inv [OF sq] mem] obtain q where
    q: "x = (int (fst q), int (snd q))" "inGrid n q" "finalLabel ?st q = Some k"
    "\<And>q'. inGrid n q' \<Longrightarrow> finalLabel ?st q' = Some k \<Longrightarrow> rasterLe q q'"
    by blast
  have "firstWith n (fst (buildConnectedComponents m i c)) k q"
    unfolding firstWith_def
  proof (intro conjI allI impI)
    show "inGrid n q" by (rule q(2))
    show "fst (buildConnectedComponents m i c) ! fst q ! snd q = Some k"
      using q(3) by (simp add: bcc_cell [OF sq q(2)])
    show "rasterLe q q'"
      if "inGrid n q'" "fst (buildConnectedComponents m i c) ! fst q' ! snd q' = Some k" for q'
      using q(4) [OF that(1)] that(2) by (simp add: bcc_cell [OF sq that(1)])
  qed
  with q(1) show ?thesis by blast
qed

lemma bcc_keys:
  assumes sq: "square m n" and g: "inGrid n p"
    and l: "fst (buildConnectedComponents m i c) ! fst p ! snd p = Some k"
  shows "k \<in> fst ` set (snd (buildConnectedComponents m i c))"
  using resolveInvD(6) [OF bcc_inv [OF sq] g] l unfolding bcc_cell [OF sq g] by simp

lemma bcc_distinct:
  assumes sq: "square m n"
  shows "distinct (map fst (snd (buildConnectedComponents m i c)))"
  using resolveInvD(4) [OF bcc_inv [OF sq]] .

lemma scan_rule:
  assumes sq: "square m n" and rc: "row < n" "col < n"
  shows "(\<forall>v. v \<in> set (validIdsAt m c (components (scanState m i c row col)) row col) \<longleftrightarrow>
            (\<exists>q. visited n row col q \<and> adjacent c q (row, col) \<and>
                 labelOf (scanState m i c row col) q = Some v) \<or>
            (v = 1 \<and> onBorder n (row, col) \<and> c = 8))"
    and "labelOf (scanState m i c row (Suc col)) (row, col) =
       (if m ! row ! col = i then None
        else if length (validIdsAt m c (components (scanState m i c row col)) row col) = 0
             then Some (currentComponent (scanState m i c row col) + 1)
        else if length (validIdsAt m c (components (scanState m i c row col)) row col) = 1
             then Some (validIdsAt m c (components (scanState m i c row col)) row col ! 0)
        else Some (Min (set (validIdsAt m c (components (scanState m i c row col)) row col))))"
    and "\<forall>q. visited n row col q \<longrightarrow>
           labelOf (scanState m i c row (Suc col)) q = labelOf (scanState m i c row col) q \<and>
           (\<forall>l. labelOf (scanState m i c row col) q = Some l \<longrightarrow>
                1 \<le> l \<and> l \<le> currentComponent (scanState m i c row col))"
    and "\<forall>x. cls (scanState m i c row (Suc col)) x =
       (if m ! row ! col \<noteq> i \<and>
           2 \<le> length (validIdsAt m c (components (scanState m i c row col)) row col)
        then joined (cls (scanState m i c row col))
               (\<Union> (cls (scanState m i c row col) `
                    set (validIdsAt m c (components (scanState m i c row col)) row col))) x
        else cls (scanState m i c row col) x)"
proof -
  let ?st = "scanState m i c row col"
  from rc have le: "col \<le> n" by simp
  note sh = scanState_inv(1) [OF sq rc(1) le, of i c]
  note I = scanState_inv(2) [OF sq rc(1) le, of i c]
  note D = scanInvD [OF I]
  show "\<forall>v. v \<in> set (validIdsAt m c (components ?st) row col) \<longleftrightarrow>
            (\<exists>q. visited n row col q \<and> adjacent c q (row, col) \<and> labelOf ?st q = Some v) \<or>
            (v = 1 \<and> onBorder n (row, col) \<and> c = 8)"
    using validIdsAt_char [OF sq rc] by blast
  show "labelOf (scanState m i c row (Suc col)) (row, col) =
       (if m ! row ! col = i then None
        else if length (validIdsAt m c (components ?st) row col) = 0
             then Some (currentComponent ?st + 1)
        else if length (validIdsAt m c (components ?st) row col) = 1
             then Some (validIdsAt m c (components ?st) row col ! 0)
        else Some (Min (set (validIdsAt m c (components ?st) row col))))"
    unfolding scanState_Suc by (rule visit_label [OF sh])
  show "\<forall>q. visited n row col q \<longrightarrow>
           labelOf (scanState m i c row (Suc col)) q = labelOf ?st q \<and>
           (\<forall>l. labelOf ?st q = Some l \<longrightarrow> 1 \<le> l \<and> l \<le> currentComponent ?st)"
    unfolding scanState_Suc using visit_old_labels [OF sh] D(5) by blast
  show "\<forall>x. cls (scanState m i c row (Suc col)) x =
       (if m ! row ! col \<noteq> i \<and> 2 \<le> length (validIdsAt m c (components ?st) row col)
        then joined (cls ?st) (\<Union> (cls ?st ` set (validIdsAt m c (components ?st) row col))) x
        else cls ?st x)"
    unfolding scanState_Suc using visit_cls [OF D(1)] by blast
qed

text \<open>
  C1: the labeler on a square mask. The first four parts are the rule of the raster scan
  at the cell \<open>(row, col)\<close>, between the state before the cell and the state after it: the
  valid ids are the labels of the adjacent cells that have been visited (and the id 1 for
  a border cell of an 8-connected pass); the cell gets no label if it does not match the
  polarity of the pass, a fresh id (larger than every label given so far) if there is no
  valid id, the valid id if there is one, and the minimum of the valid ids otherwise;
  the labels of the visited cells stay; and the equivalence classes stay, except that with
  several valid ids the classes of all of them are merged into one. The last parts are
  the result after the resolution pass: every cell holds the minimum of the class of the
  label that the scan gave it, and none exactly where the mask does not match; in a
  pass that is not 8-connected two labelled cells hold the same id exactly when a chain of
  edge-adjacent labelled cells joins them; and the registry has one entry for each id
  that occurs, at the first cell in raster order that holds the id.
\<close>

theorem C1_labeler_scan_and_resolution:
  assumes "square dotsMask n"
  shows
    "(\<forall>row col. row < n \<longrightarrow> col < n \<longrightarrow>
       (\<forall>v. v \<in> set (validIdsAt dotsMask connectedness
                  (components (scanState dotsMask invert connectedness row col)) row col) \<longleftrightarrow>
            (\<exists>q. visited n row col q \<and> adjacent connectedness q (row, col) \<and>
                 labelOf (scanState dotsMask invert connectedness row col) q = Some v) \<or>
            (v = 1 \<and> onBorder n (row, col) \<and> connectedness = 8)) \<and>
       labelOf (scanState dotsMask invert connectedness row (Suc col)) (row, col) =
         (if dotsMask ! row ! col = invert then None
          else if length (validIdsAt dotsMask connectedness
                  (components (scanState dotsMask invert connectedness row col)) row col) = 0
               then Some (currentComponent (scanState dotsMask invert connectedness row col) + 1)
          else if length (validIdsAt dotsMask connectedness
                  (components (scanState dotsMask invert connectedness row col)) row col) = 1
               then Some (validIdsAt dotsMask connectedness
                  (components (scanState dotsMask invert connectedness row col)) row col ! 0)
          else Some (Min (set (validIdsAt dotsMask connectedness
                  (components (scanState dotsMask invert connectedness row col)) row col)))) \<and>
       (\<forall>q. visited n row col q \<longrightarrow>
           labelOf (scanState dotsMask invert connectedness row (Suc col)) q =
             labelOf (scanState dotsMask invert connectedness row col) q \<and>
           (\<forall>l. labelOf (scanState dotsMask invert connectedness row col) q = Some l \<longrightarrow>
                1 \<le> l \<and> l \<le> currentComponent (scanState dotsMask invert connectedness row col))) \<and>
       (\<forall>x. cls (scanState dotsMask invert connectedness row (Suc col)) x =
         (if dotsMask ! row ! col \<noteq> invert \<and>
             2 \<le> length (validIdsAt dotsMask connectedness
                  (components (scanState dotsMask invert connectedness row col)) row col)
          then joined (cls (scanState dotsMask invert connectedness row col))
                 (\<Union> (cls (scanState dotsMask invert connectedness row col) `
                      set (validIdsAt dotsMask connectedness
                        (components (scanState dotsMask invert connectedness row col)) row col))) x
          else cls (scanState dotsMask invert connectedness row col) x))) \<and>
     firstPass dotsMask invert connectedness =
       (if length dotsMask = 0 then initialLabeler
        else scanState dotsMask invert connectedness (length dotsMask - 1)
               (length (dotsMask ! (length dotsMask - 1)))) \<and>
     length (fst (buildConnectedComponents dotsMask invert connectedness)) = n \<and>
     (\<forall>r < n. length (fst (buildConnectedComponents dotsMask invert connectedness) ! r) = n) \<and>
     (\<forall>p. inGrid n p \<longrightarrow>
        fst (buildConnectedComponents dotsMask invert connectedness) ! fst p ! snd p =
          map_option (\<lambda>l. Min (cls (firstPass dotsMask invert connectedness) l))
            (labelOf (firstPass dotsMask invert connectedness) p) \<and>
        (fst (buildConnectedComponents dotsMask invert connectedness) ! fst p ! snd p = None \<longleftrightarrow>
           dotsMask ! fst p ! snd p = invert)) \<and>
     (connectedness \<noteq> 8 \<longrightarrow>
        (\<forall>p q. inGrid n p \<longrightarrow> inGrid n q \<longrightarrow>
           dotsMask ! fst p ! snd p \<noteq> invert \<longrightarrow> dotsMask ! fst q ! snd q \<noteq> invert \<longrightarrow>
           (fst (buildConnectedComponents dotsMask invert connectedness) ! fst p ! snd p =
            fst (buildConnectedComponents dotsMask invert connectedness) ! fst q ! snd q \<longleftrightarrow>
            connected dotsMask invert connectedness p q))) \<and>
     distinct (map fst (snd (buildConnectedComponents dotsMask invert connectedness))) \<and>
     (\<forall>k x. (k, x) \<in> set (snd (buildConnectedComponents dotsMask invert connectedness)) \<longrightarrow>
        (\<exists>q. x = (int (fst q), int (snd q)) \<and>
             firstWith n (fst (buildConnectedComponents dotsMask invert connectedness)) k q)) \<and>
     (\<forall>p k. inGrid n p \<longrightarrow>
        fst (buildConnectedComponents dotsMask invert connectedness) ! fst p ! snd p = Some k \<longrightarrow>
        k \<in> fst ` set (snd (buildConnectedComponents dotsMask invert connectedness)))"
proof -
  note sq = assms
  have same: "fst (buildConnectedComponents dotsMask invert connectedness) ! fst p ! snd p =
            fst (buildConnectedComponents dotsMask invert connectedness) ! fst q ! snd q \<longleftrightarrow>
            connected dotsMask invert connectedness p q"
    if "connectedness \<noteq> 8" "inGrid n p" "inGrid n q"
      "dotsMask ! fst p ! snd p \<noteq> invert" "dotsMask ! fst q ! snd q \<noteq> invert" for p q
    using bcc_same_iff [OF sq that(2,3), where i = invert and c = connectedness] that(1,4,5)
    by (simp add: labelled_def linked_def)
  have cell: "fst (buildConnectedComponents dotsMask invert connectedness) ! fst p ! snd p =
          map_option (\<lambda>l. Min (cls (firstPass dotsMask invert connectedness) l))
            (labelOf (firstPass dotsMask invert connectedness) p)" if "inGrid n p" for p
    using bcc_cell [OF sq that, where i = invert and c = connectedness]
    by (simp add: finalLabel_def canonical_cls [abs_def])
  show ?thesis
  proof (intro conjI allI impI)
    fix row col assume rc: "row < n" "col < n"
    note r = scan_rule [OF sq rc, where c = connectedness and i = invert]
    show "v \<in> set (validIdsAt dotsMask connectedness
                  (components (scanState dotsMask invert connectedness row col)) row col) \<longleftrightarrow>
            (\<exists>q. visited n row col q \<and> adjacent connectedness q (row, col) \<and>
                 labelOf (scanState dotsMask invert connectedness row col) q = Some v) \<or>
            (v = 1 \<and> onBorder n (row, col) \<and> connectedness = 8)" for v
      using r(1) by (rule spec)
    show "labelOf (scanState dotsMask invert connectedness row (Suc col)) (row, col) =
         (if dotsMask ! row ! col = invert then None
          else if length (validIdsAt dotsMask connectedness
                  (components (scanState dotsMask invert connectedness row col)) row col) = 0
               then Some (currentComponent (scanState dotsMask invert connectedness row col) + 1)
          else if length (validIdsAt dotsMask connectedness
                  (components (scanState dotsMask invert connectedness row col)) row col) = 1
               then Some (validIdsAt dotsMask connectedness
                  (components (scanState dotsMask invert connectedness row col)) row col ! 0)
          else Some (Min (set (validIdsAt dotsMask connectedness
                  (components (scanState dotsMask invert connectedness row col)) row col))))"
      by (rule r(2))
    show "labelOf (scanState dotsMask invert connectedness row (Suc col)) q =
             labelOf (scanState dotsMask invert connectedness row col) q"
      if "visited n row col q" for q
      using r(3) that by blast
    show "1 \<le> l" "l \<le> currentComponent (scanState dotsMask invert connectedness row col)"
      if "visited n row col q" "labelOf (scanState dotsMask invert connectedness row col) q = Some l"
      for q l
      using r(3) that by blast+
    show "cls (scanState dotsMask invert connectedness row (Suc col)) x =
         (if dotsMask ! row ! col \<noteq> invert \<and>
             2 \<le> length (validIdsAt dotsMask connectedness
                  (components (scanState dotsMask invert connectedness row col)) row col)
          then joined (cls (scanState dotsMask invert connectedness row col))
                 (\<Union> (cls (scanState dotsMask invert connectedness row col) `
                      set (validIdsAt dotsMask connectedness
                        (components (scanState dotsMask invert connectedness row col)) row col))) x
          else cls (scanState dotsMask invert connectedness row col) x)" for x
      using r(4) by (rule spec)
  next
    show "firstPass dotsMask invert connectedness =
       (if length dotsMask = 0 then initialLabeler
        else scanState dotsMask invert connectedness (length dotsMask - 1)
               (length (dotsMask ! (length dotsMask - 1))))"
      by (rule scanState_firstPass)
    show "length (fst (buildConnectedComponents dotsMask invert connectedness)) = n"
      by (rule bcc_shape(1) [OF sq])
    show "\<And>r. r < n \<Longrightarrow>
        length (fst (buildConnectedComponents dotsMask invert connectedness) ! r) = n"
      by (rule bcc_shape(2) [OF sq])
    show "\<And>p. inGrid n p \<Longrightarrow>
        fst (buildConnectedComponents dotsMask invert connectedness) ! fst p ! snd p =
          map_option (\<lambda>l. Min (cls (firstPass dotsMask invert connectedness) l))
            (labelOf (firstPass dotsMask invert connectedness) p)"
      by (rule cell)
    show "\<And>p. inGrid n p \<Longrightarrow>
        (fst (buildConnectedComponents dotsMask invert connectedness) ! fst p ! snd p = None) =
           (dotsMask ! fst p ! snd p = invert)"
      by (rule bcc_None [OF sq])
    show "\<And>p q. connectedness \<noteq> 8 \<Longrightarrow> inGrid n p \<Longrightarrow> inGrid n q \<Longrightarrow>
           dotsMask ! fst p ! snd p \<noteq> invert \<Longrightarrow> dotsMask ! fst q ! snd q \<noteq> invert \<Longrightarrow>
           (fst (buildConnectedComponents dotsMask invert connectedness) ! fst p ! snd p =
            fst (buildConnectedComponents dotsMask invert connectedness) ! fst q ! snd q) =
            connected dotsMask invert connectedness p q"
      by (rule same)
    show "distinct (map fst (snd (buildConnectedComponents dotsMask invert connectedness)))"
      by (rule bcc_distinct [OF sq])
    show "\<And>k x. (k, x) \<in> set (snd (buildConnectedComponents dotsMask invert connectedness)) \<Longrightarrow>
        \<exists>q. x = (int (fst q), int (snd q)) \<and>
             firstWith n (fst (buildConnectedComponents dotsMask invert connectedness)) k q"
      by (rule bcc_registry [OF sq])
    show "\<And>p k. inGrid n p \<Longrightarrow>
        fst (buildConnectedComponents dotsMask invert connectedness) ! fst p ! snd p = Some k \<Longrightarrow>
        k \<in> fst ` set (snd (buildConnectedComponents dotsMask invert connectedness))"
      by (rule bcc_keys [OF sq])
  qed
qed

theorem C1_labeler_scan_and_resolution_witness:
  "square [[True, False, True], [True, False, True], [True, True, True]] 3 \<and>
   buildConnectedComponents [[True, False, True], [True, False, True], [True, True, True]] False 4 =
     ([[Some 2, None, Some 2], [Some 2, None, Some 2], [Some 2, Some 2, Some 2]], [(2, (0, 0))]) \<and>
   validIdsAt [[True, False, True], [True, False, True], [True, True, True]] 4
     (components (scanState [[True, False, True], [True, False, True], [True, True, True]]
        False 4 2 2)) 2 2 = [2, 3] \<and>
   labelOf (scanState [[True, False, True], [True, False, True], [True, True, True]] False 4 2 3)
     (2, 2) = Some 2 \<and>
   cls (scanState [[True, False, True], [True, False, True], [True, True, True]] False 4 2 3) 3 =
     {2, 3} \<and>
   connected [[True, False, True], [True, False, True], [True, True, True]] False 4 (0, 0) (0, 2) \<and>
   firstWith 3 [[Some 2, None, Some 2], [Some 2, None, Some 2], [Some 2, Some 2, Some 2]] 2 (0, 0)"
proof -
  let ?m = "[[True, False, True], [True, False, True], [True, True, True]]"
  let ?L = "[[Some 2, None, Some 2], [Some 2, None, Some 2], [Some 2, Some 2, Some (2 :: nat)]]"
  have sq: "square ?m 3" by (simp add: square_def)
  note T = C1_labeler_scan_and_resolution [OF sq, where invert = False and connectedness = 4]
  have ev: "buildConnectedComponents ?m False 4 = (?L, [(2, (0, 0))])" by code_simp
  have V: "validIdsAt ?m 4 (components (scanState ?m False 4 2 2)) 2 2 = [2, 3]" by code_simp
  have c3: "cls (scanState ?m False 4 2 2) 3 = {3}" "cls (scanState ?m False 4 2 2) 2 = {2}"
    by code_simp+
  note rule = T [THEN conjunct1, rule_format, of 2 2]
  have lab: "labelOf (scanState ?m False 4 2 3) (2, 2) = Some 2"
    using rule [THEN conjunct2, THEN conjunct1] unfolding V by simp
  have "cls (scanState ?m False 4 2 3) 3 =
      joined (cls (scanState ?m False 4 2 2)) (\<Union> (cls (scanState ?m False 4 2 2) ` set [2, 3])) 3"
    using rule [THEN conjunct2, THEN conjunct2, THEN conjunct2, rule_format, of 3]
    unfolding V by simp
  then have cl: "cls (scanState ?m False 4 2 3) 3 = {2, 3}"
    by (auto simp: c3 joined_def)
  note same = T [THEN conjunct2, THEN conjunct2, THEN conjunct2, THEN conjunct2,
      THEN conjunct2, THEN conjunct1, rule_format, of "(0, 0)" "(0, 2)"]
  have cn: "connected ?m False 4 (0, 0) (0, 2)"
    using same unfolding ev by (simp add: inGrid_def)
  note reg = T [THEN conjunct2, THEN conjunct2, THEN conjunct2, THEN conjunct2,
      THEN conjunct2, THEN conjunct2, THEN conjunct2, THEN conjunct1, rule_format,
      of 2 "(0, 0)"]
  have "\<exists>q. (0 :: int, 0 :: int) = (int (fst q), int (snd q)) \<and> firstWith 3 ?L 2 q"
    using reg unfolding ev by simp
  then obtain q where "(0 :: int, 0 :: int) = (int (fst q), int (snd q))" "firstWith 3 ?L 2 q"
    by blast
  then have fw: "firstWith 3 ?L 2 (0, 0)" by (cases q) simp
  from sq ev V lab cl cn fw show ?thesis by blast
qed

text \<open>
  C5: in the 8-connected pass over the background of a square mask, a cell ends with the
  id 1 exactly when it is a background cell whose component, by 8-adjacency, holds a cell
  of the border of the grid. The counter of ids starts at 1 and a fresh id is the counter
  plus one, so a fresh id is at least 2.
\<close>

theorem C5_id_1_is_the_outside:
  assumes "square dotsMask n"
  shows
    "(\<forall>p. inGrid n p \<longrightarrow>
        (fst (buildConnectedComponents dotsMask True 8) ! fst p ! snd p = Some 1 \<longleftrightarrow>
         \<not> dotsMask ! fst p ! snd p \<and> touchesBorder dotsMask True 8 p)) \<and>
     currentComponent initialLabeler = 1 \<and>
     (\<forall>row col. row < n \<longrightarrow> col < n \<longrightarrow>
        1 \<le> currentComponent (scanState dotsMask True 8 row col) \<and>
        (\<not> dotsMask ! row ! col \<longrightarrow>
         validIdsAt dotsMask 8 (components (scanState dotsMask True 8 row col)) row col = [] \<longrightarrow>
         labelOf (scanState dotsMask True 8 row (Suc col)) (row, col) =
           Some (currentComponent (scanState dotsMask True 8 row col) + 1)))"
proof (intro conjI allI impI)
  note sq = assms
  show "fst (buildConnectedComponents dotsMask True 8) ! fst p ! snd p = Some 1 \<longleftrightarrow>
         \<not> dotsMask ! fst p ! snd p \<and> touchesBorder dotsMask True 8 p" if "inGrid n p" for p
    using bcc_one [OF sq that, where i = True and c = 8] by (simp add: labelled_def)
  show "currentComponent initialLabeler = 1" by (simp add: initialLabeler_def)
  fix row col assume rc: "row < n" "col < n"
  from rc have le: "col \<le> n" by simp
  show "1 \<le> currentComponent (scanState dotsMask True 8 row col)"
    using scanInvD(2) [OF scanState_inv(2) [OF sq rc(1) le]] .
  assume "\<not> dotsMask ! row ! col"
    "validIdsAt dotsMask 8 (components (scanState dotsMask True 8 row col)) row col = []"
  then show "labelOf (scanState dotsMask True 8 row (Suc col)) (row, col) =
           Some (currentComponent (scanState dotsMask True 8 row col) + 1)"
    using scan_rule(2) [OF sq rc, where i = True and c = 8] by simp
qed

theorem C5_id_1_is_the_outside_witness:
  "square [[True, True, True, False], [True, False, True, False], [True, True, True, False],
           [False, False, False, False]] 4 \<and>
   buildConnectedComponents [[True, True, True, False], [True, False, True, False],
       [True, True, True, False], [False, False, False, False]] True 8 =
     ([[None, None, None, Some 1], [None, Some 2, None, Some 1], [None, None, None, Some 1],
       [Some 1, Some 1, Some 1, Some 1]], [(1, (0, 3)), (2, (1, 1))]) \<and>
   \<not> touchesBorder [[True, True, True, False], [True, False, True, False],
       [True, True, True, False], [False, False, False, False]] True 8 (1, 1) \<and>
   touchesBorder [[True, True, True, False], [True, False, True, False],
       [True, True, True, False], [False, False, False, False]] True 8 (2, 3) \<and>
   labelOf (scanState [[True, True, True, False], [True, False, True, False],
       [True, True, True, False], [False, False, False, False]] True 8 1 2) (1, 1) = Some 2"
proof -
  let ?m = "[[True, True, True, False], [True, False, True, False], [True, True, True, False],
           [False, False, False, False]]"
  have sq: "square ?m 4" by (simp add: square_def)
  note T = C5_id_1_is_the_outside [OF sq]
  have ev: "buildConnectedComponents ?m True 8 =
     ([[None, None, None, Some 1], [None, Some 2, None, Some 1], [None, None, None, Some 1],
       [Some 1, Some 1, Some 1, Some 1]], [(1, (0, 3)), (2, (1, 1))])" by code_simp
  have a: "\<not> touchesBorder ?m True 8 (1, 1)"
    using T [THEN conjunct1, rule_format, of "(1, 1)"] unfolding ev by (simp add: inGrid_def)
  have b: "touchesBorder ?m True 8 (2, 3)"
    using T [THEN conjunct1, rule_format, of "(2, 3)"] unfolding ev by (simp add: inGrid_def)
  have V: "validIdsAt ?m 8 (components (scanState ?m True 8 1 1)) 1 1 = []" by code_simp
  have cc: "currentComponent (scanState ?m True 8 1 1) = 1" by code_simp
  have c: "labelOf (scanState ?m True 8 1 2) (1, 1) = Some 2"
    using T [THEN conjunct2, THEN conjunct2, rule_format, of 1 1, THEN conjunct2] V cc
    by (simp add: numeral_2_eq_2)
  from sq ev a b c show ?thesis by blast
qed

text \<open>
  C10: for a square mask, every entry of the registry of the 8-connected background pass
  whose id is greater than 1 has its start in the grid and not in column 0, and the cell on
  the left of the start is a foreground cell, so the foreground label map holds an id there.
\<close>

theorem C10_hole_start_has_foreground_on_the_left:
  assumes "square dotsMask n"
    and "(k, (r, c)) \<in> set (snd (buildConnectedComponents dotsMask True 8))"
    and "1 < k"
  shows "0 \<le> r \<and> r < int n \<and> 1 \<le> c \<and> c < int n \<and> dotsMask ! nat r ! nat (c - 1) \<and>
     (\<exists>f. cellAt (fst (buildConnectedComponents dotsMask False 4)) r (c - 1) = Some f \<and> 1 \<le> f)"
proof -
  note sq = assms(1)
  let ?B = "fst (buildConnectedComponents dotsMask True 8)"
  let ?F = "fst (buildConnectedComponents dotsMask False 4)"
  have len: "length dotsMask = n" using sq by (rule square_length)
  from bcc_registry [OF sq assms(2)] obtain q where
    q: "(r, c) = (int (fst q), int (snd q))" and fw: "firstWith n ?B k q" by blast
  from fw have g: "inGrid n q" and lq: "?B ! fst q ! snd q = Some k"
    and first: "\<And>q'. inGrid n q' \<Longrightarrow> ?B ! fst q' ! snd q' = Some k \<Longrightarrow> rasterLe q q'"
    unfolding firstWith_def by blast+
  have labq: "labelled dotsMask True q"
    using bcc_None [OF sq g, where i = True and c = 8] lq by (simp add: labelled_def)
  have nt: "\<not> touchesBorder dotsMask True 8 q"
    using bcc_one [OF sq g, where i = True and c = 8] lq assms(3) labq by simp
  have nb: "\<not> onBorder n q"
    using touches_self [of dotsMask q True 8] g labq nt unfolding len by blast
  then have pos: "0 < snd q" by (simp add: onBorder_def)
  let ?q' = "(fst q, snd q - 1)"
  have g': "inGrid n ?q'" using g by (auto simp: inGrid_def)
  have adj: "adjacent 8 q ?q'" using pos by (cases q) (auto simp: adjacent_def)
  have fg: "dotsMask ! fst q ! (snd q - 1)"
  proof (rule ccontr)
    assume "\<not> dotsMask ! fst q ! (snd q - 1)"
    then have lab': "labelled dotsMask True ?q'" by (simp add: labelled_def)
    have "link dotsMask True 8 q ?q'"
      unfolding link_def len using g g' labq lab' adj by blast
    then have "linked dotsMask True 8 q ?q'" by (rule link_linked)
    then have "?B ! fst ?q' ! snd ?q' = Some k"
      using bcc_same_iff [OF sq g g' labq lab', where c = 8] lq by simp
    from first [OF g' this] pos show False by (simp add: rasterLe_def)
  qed
  have "?F ! fst ?q' ! snd ?q' \<noteq> None"
    using bcc_None [OF sq g', where i = False and c = 4] fg by simp
  then obtain f where f: "?F ! fst q ! (snd q - 1) = Some f" by auto
  have f1: "1 \<le> f" using bcc_ge_1 [OF sq g', where i = False and c = 4] f by simp
  have sh: "length ?F = n" "length (?F ! fst q) = n"
    using bcc_shape [OF sq, where i = False and c = 4] g by (simp_all add: inGrid_def)
  have rc: "r = int (fst q)" "c = int (snd q)" using q by simp_all
  have nat: "nat (int (snd q) - 1) = snd q - 1" using pos by simp
  have "cellAt ?F r (c - 1) = Some f"
    using f sh g pos unfolding rc cellAt_def lookup2_def Let_def nat
    by (simp add: inGrid_def)
  moreover have "dotsMask ! nat r ! nat (c - 1)" using fg unfolding rc nat by simp
  moreover have "0 \<le> r" "r < int n" "1 \<le> c" "c < int n"
    using g pos unfolding rc by (simp_all add: inGrid_def)
  ultimately show ?thesis using f1 by blast
qed

theorem C10_hole_start_has_foreground_on_the_left_witness:
  "square [[True, True, True, False], [True, False, True, False], [True, True, True, False],
           [False, False, False, False]] 4 \<and>
   (2, (1, 1)) \<in> set (snd (buildConnectedComponents [[True, True, True, False],
       [True, False, True, False], [True, True, True, False], [False, False, False, False]]
       True 8)) \<and>
   (1 :: nat) < 2 \<and>
   cellAt (fst (buildConnectedComponents [[True, True, True, False],
       [True, False, True, False], [True, True, True, False], [False, False, False, False]]
       False 4)) 1 0 = Some 2"
proof -
  let ?m = "[[True, True, True, False], [True, False, True, False], [True, True, True, False],
           [False, False, False, False]]"
  have sq: "square ?m 4" by (simp add: square_def)
  have mem: "(2, (1, 1)) \<in> set (snd (buildConnectedComponents ?m True 8))" by code_simp
  have lt: "(1 :: nat) < 2" by simp
  from C10_hole_start_has_foreground_on_the_left [OF sq mem lt]
  obtain f where "cellAt (fst (buildConnectedComponents ?m False 4)) 1 (1 - 1) = Some f" by blast
  moreover have "cellAt (fst (buildConnectedComponents ?m False 4)) 1 0 = Some 2" by code_simp
  ultimately show ?thesis using sq mem lt by simp
qed

section \<open>Properties of the hole compositor\<close>

lemma map_of_map_key:
  "map_of (map (\<lambda>e. if fst e = k then (fst e, snd e @ [x]) else e) H) f =
     (if f = k then map_option (\<lambda>a. a @ [x]) (map_of H k) else map_of H f)"
  by (induction H) auto

lemma map_fst_map_key:
  "map fst (map (\<lambda>e. if fst e = k then (fst e, snd e @ [x]) else e) H) = map fst H"
  by (induction H) auto

lemma map_fst_comp_key:
  "map (fst \<circ> (\<lambda>e. if fst e = k then (fst e, snd e @ [x]) else e)) H = map fst H"
  by (induction H) auto

lemma registerHole_props:
  assumes d: "distinct (map fst H)"
  shows "distinct (map fst (registerHole comps H e))"
    and "(case map_of (registerHole comps H e) f of None \<Rightarrow> [] | Some a \<Rightarrow> a) =
       (case map_of H f of None \<Rightarrow> [] | Some a \<Rightarrow> a) @
       (if surroundingOf comps (snd e) = Some f \<and> 1 < fst e then [fst e] else [])"
proof -
  show "distinct (map fst (registerHole comps H e))"
    using d
    by (auto simp: registerHole_def mapSet_def Let_def map_fst_comp_key map_of_eq_None_iff
        split: option.splits)
  show "(case map_of (registerHole comps H e) f of None \<Rightarrow> [] | Some a \<Rightarrow> a) =
       (case map_of H f of None \<Rightarrow> [] | Some a \<Rightarrow> a) @
       (if surroundingOf comps (snd e) = Some f \<and> 1 < fst e then [fst e] else [])"
  proof (cases "surroundingOf comps (snd e)")
    case None
    then show ?thesis by (simp add: registerHole_def)
  next
    case (Some s)
    show ?thesis
    proof (cases "fst e \<le> 1")
      case True
      with Some show ?thesis by (simp add: registerHole_def)
    next
      case False
      show ?thesis
      proof (cases "map_of H s")
        case None
        then have "registerHole comps H e =
            map (\<lambda>x. if fst x = s then (fst x, snd x @ [fst e]) else x) (H @ [(s, [])])"
          using Some False by (simp add: registerHole_def mapSet_def Let_def)
        then show ?thesis
          using Some False None
          by (simp only: map_of_map_key) (auto simp: map_of_append split: option.splits)
      next
        case (Some a)
        then have "registerHole comps H e =
            map (\<lambda>x. if fst x = s then (fst x, snd x @ [fst e]) else x) H"
          using \<open>surroundingOf comps (snd e) = Some s\<close> False
          by (simp add: registerHole_def Let_def)
        then show ?thesis
          using \<open>surroundingOf comps (snd e) = Some s\<close> False Some
          by (simp only: map_of_map_key) (auto split: option.splits)
      qed
    qed
  qed
qed

lemma foldl_registerHole:
  assumes "distinct (map fst H)"
  shows "distinct (map fst (foldl (registerHole comps) H B)) \<and>
     (case map_of (foldl (registerHole comps) H B) f of None \<Rightarrow> [] | Some a \<Rightarrow> a) =
       (case map_of H f of None \<Rightarrow> [] | Some a \<Rightarrow> a) @
       map fst (filter (\<lambda>e. surroundingOf comps (snd e) = Some f \<and> 1 < fst e) B)"
  using assms
proof (induction B arbitrary: H)
  case Nil
  then show ?case by simp
next
  case (Cons e B)
  note p = registerHole_props [OF Cons.prems, of comps e]
  from Cons.IH [OF p(1)] p(2) [of f] show ?case by simp
qed

lemma registerHoles_foldl:
  assumes "\<And>e. e \<in> set B \<Longrightarrow> 0 \<le> fst (snd e) \<and> fst (snd e) < int (length comps)"
  shows "registerHoles comps B H = Some (foldl (registerHole comps) H B)"
  using assms
proof (induction B arbitrary: H)
  case Nil
  show ?case by simp
next
  case (Cons e B)
  have "0 \<le> fst (snd e) \<and> fst (snd e) < int (length comps)" using Cons.prems by simp
  moreover have "registerHoles comps B (registerHole comps H e) =
      Some (foldl (registerHole comps) (registerHole comps H e) B)"
    using Cons.prems by (intro Cons.IH) simp
  ultimately show ?case by simp
qed

lemma renderAll_sequence:
  assumes "distinct (map fst ids)" and "set (map fst ids) \<inter> set (map fst paths) = {}"
  shows "renderAll dotSize comps offset drawer ids paths =
     (case sequence (map (\<lambda>e. map_option (Pair (fst e))
             (renderComponentToPath dotSize (fst e) comps offset (snd e) drawer False)) ids) of
        None \<Rightarrow> None
      | Some ps \<Rightarrow> Some (paths @ ps))"
  using assms
proof (induction ids arbitrary: paths)
  case Nil
  show ?case by simp
next
  case (Cons e ids)
  show ?case
  proof (cases "renderComponentToPath dotSize (fst e) comps offset (snd e) drawer False")
    case None
    then show ?thesis by simp
  next
    case (Some p)
    have nk: "map_of paths (fst e) = None"
      using Cons.prems(2) by (auto simp: map_of_eq_None_iff)
    then have ms: "mapSet paths (fst e) p = paths @ [(fst e, p)]" by (simp add: mapSet_def)
    have d: "distinct (map fst ids)" using Cons.prems(1) by simp
    have dj: "set (map fst ids) \<inter> set (map fst (paths @ [(fst e, p)])) = {}"
      using Cons.prems by auto
    show ?thesis
      using Some Cons.IH [OF d dj]
      by (simp add: ms split: option.splits)
  qed
qed

lemma appendHoles_sequence:
  "appendHoles dotSize comps offset drawer backgroundIds i hs fullPath =
     (case sequence (map (\<lambda>b. case map_of backgroundIds b of
                                None \<Rightarrow> None
                              | Some start \<Rightarrow>
                                  renderComponentToPath dotSize i comps offset
                                    (fst start - 1, snd start - 1) drawer True) hs) of
        None \<Rightarrow> None
      | Some contours \<Rightarrow> Some (fullPath @ concat contours))"
proof (induction hs arbitrary: fullPath)
  case Nil
  show ?case by simp
next
  case (Cons b hs)
  show ?case
  proof (cases "map_of backgroundIds b")
    case None
    then show ?thesis by simp
  next
    case (Some start)
    show ?thesis
    proof (cases "renderComponentToPath dotSize i comps offset
        (fst start - 1, snd start - 1) drawer True")
      case None
      with Some show ?thesis by simp
    next
      case (Some p)
      with \<open>map_of backgroundIds b = Some start\<close> Cons.IH [of "fullPath @ p"]
      show ?thesis by (simp split: option.splits)
    qed
  qed
qed

lemma emitAll_sequence:
  "emitAll dotSize comps offset drawer backgroundIds holes paths =
     sequence (map (\<lambda>e. map_option (Pair (fst e))
        (appendHoles dotSize comps offset drawer backgroundIds (fst e)
           (case map_of holes (fst e) of None \<Rightarrow> [] | Some a \<Rightarrow> a) (snd e))) paths)"
proof (induction paths)
  case Nil
  show ?case by simp
next
  case (Cons e paths)
  then show ?case
    by (cases "appendHoles dotSize comps offset drawer backgroundIds (fst e)
           (case map_of holes (fst e) of None \<Rightarrow> [] | Some a \<Rightarrow> a) (snd e)") simp_all
qed

lemma sequence_bind:
  "(case sequence (map A xs) of None \<Rightarrow> None | Some ys \<Rightarrow> sequence (map B ys)) =
     sequence (map (\<lambda>x. case A x of None \<Rightarrow> None | Some y \<Rightarrow> B y) xs)"
proof (induction xs)
  case Nil
  show ?case by simp
next
  case (Cons x xs)
  show ?case
  proof (cases "A x")
    case None
    then show ?thesis by simp
  next
    case (Some y)
    show ?thesis
    proof (cases "B y")
      case None
      with Some show ?thesis by (simp split: option.splits)
    next
      case (Some z)
      with \<open>A x = Some y\<close> Cons.IH [symmetric] show ?thesis by (simp split: option.splits)
    qed
  qed
qed

lemma sequence_cong:
  "(\<And>x. x \<in> set xs \<Longrightarrow> f x = g x) \<Longrightarrow> sequence (map f xs) = sequence (map g xs)"
  by (induction xs) (simp_all cong: map_cong)

lemma cellAt_bcc_ge_1:
  assumes sq: "square m n" and c: "cellAt (fst (buildConnectedComponents m i c)) r k = Some f"
  shows "1 \<le> f"
proof -
  let ?L = "fst (buildConnectedComponents m i c)"
  have r: "0 \<le> r \<and> r < int (length ?L)"
    using c by (auto simp: cellAt_def lookup2_def Let_def split: if_splits option.splits)
  then have k: "0 \<le> k \<and> k < int (length (?L ! nat r))"
    using c by (auto simp: cellAt_def lookup2_def Let_def split: if_splits option.splits)
  have v: "?L ! nat r ! nat k = Some f"
    using c r k by (simp add: cellAt_def lookup2_def Let_def)
  have rn: "nat r < n" using r bcc_shape(1) [OF sq, of i c] by auto
  have "nat k < n" using k rn bcc_shape(2) [OF sq rn, of i c] by auto
  with rn have g: "inGrid n (nat r, nat k)" by (simp add: inGrid_def)
  from bcc_ge_1 [OF sq g, of i c f] v show ?thesis by simp
qed

lemma surroundingOf_bcc:
  assumes sq: "square m n"
  shows "surroundingOf (fst (buildConnectedComponents m i c)) x = Some f \<longleftrightarrow>
     cellAt (fst (buildConnectedComponents m i c)) (fst x) (snd x - 1) = Some f"
proof (cases "cellAt (fst (buildConnectedComponents m i c)) (fst x) (snd x - 1)")
  case None
  then show ?thesis by (simp add: surroundingOf_def)
next
  case (Some v)
  from cellAt_bcc_ge_1 [OF sq Some] have "v \<noteq> 0" by simp
  with Some show ?thesis by (simp add: surroundingOf_def)
qed

lemma registry_rows:
  assumes sq: "square m n" and e: "e \<in> set (snd (buildConnectedComponents m i c))"
  shows "0 \<le> fst (snd e) \<and> fst (snd e) < int (length (fst (buildConnectedComponents m i' c')))"
proof -
  obtain k x where kx: "e = (k, x)" by (cases e)
  from bcc_registry [OF sq e [unfolded kx]] obtain q where
    q: "x = (int (fst q), int (snd q))" "firstWith n (fst (buildConnectedComponents m i c)) k q"
    by blast
  from q(2) have "fst q < n" by (simp add: firstWith_def inGrid_def)
  then show ?thesis using q(1) kx bcc_shape(1) [OF sq, of i' c'] by simp
qed

lemma holes_registered:
  assumes sq: "square m n"
  shows "registerHoles (fst (buildConnectedComponents m False 4))
           (snd (buildConnectedComponents m True 8)) [] =
         Some (foldl (registerHole (fst (buildConnectedComponents m False 4))) []
                 (snd (buildConnectedComponents m True 8)))"
    and "(case map_of (foldl (registerHole (fst (buildConnectedComponents m False 4))) []
                 (snd (buildConnectedComponents m True 8))) f of None \<Rightarrow> [] | Some a \<Rightarrow> a) =
         map fst (holesOf (fst (buildConnectedComponents m False 4))
                    (snd (buildConnectedComponents m True 8)) f)"
proof -
  let ?F = "fst (buildConnectedComponents m False 4)"
  let ?B = "snd (buildConnectedComponents m True 8)"
  show "registerHoles ?F ?B [] = Some (foldl (registerHole ?F) [] ?B)"
    by (rule registerHoles_foldl) (rule registry_rows [OF sq])
  have p: "(surroundingOf ?F (snd e) = Some f \<and> 1 < fst e) \<longleftrightarrow>
      (isHole ?F e \<and> cellAt ?F (fst (snd e)) (snd (snd e) - 1) = Some f)" for e
    unfolding surroundingOf_bcc [OF sq] isHole_def by auto
  have "(case map_of (foldl (registerHole ?F) [] ?B) f of None \<Rightarrow> [] | Some a \<Rightarrow> a) =
      map fst (filter (\<lambda>e. surroundingOf ?F (snd e) = Some f \<and> 1 < fst e) ?B)"
    using foldl_registerHole [of "[]" ?F ?B f] by simp
  then show "(case map_of (foldl (registerHole ?F) [] ?B) f of None \<Rightarrow> [] | Some a \<Rightarrow> a) =
      map fst (holesOf ?F ?B f)"
    unfolding holesOf_def p .
qed

lemma drawComponents_composed:
  assumes sq: "square m n"
  shows "drawComponents dotSize m offset drawer =
     sequence (map (composedPath dotSize (fst (buildConnectedComponents m False 4)) offset drawer
                      (snd (buildConnectedComponents m True 8)))
                 (snd (buildConnectedComponents m False 4)))"
proof -
  let ?F = "fst (buildConnectedComponents m False 4)"
  let ?ids = "snd (buildConnectedComponents m False 4)"
  let ?B = "snd (buildConnectedComponents m True 8)"
  let ?H = "foldl (registerHole ?F) [] ?B"
  let ?A = "\<lambda>e. map_option (Pair (fst e))
             (renderComponentToPath dotSize (fst e) ?F offset (snd e) drawer False)"
  let ?E = "\<lambda>e. map_option (Pair (fst e))
        (appendHoles dotSize ?F offset drawer ?B (fst e)
           (case map_of ?H (fst e) of None \<Rightarrow> [] | Some a \<Rightarrow> a) (snd e))"
  have dI: "distinct (map fst ?ids)" by (rule bcc_distinct [OF sq])
  have dB: "distinct (map fst ?B)" by (rule bcc_distinct [OF sq])
  have ra: "renderAll dotSize ?F offset drawer ?ids [] =
      (case sequence (map ?A ?ids) of None \<Rightarrow> None | Some ps \<Rightarrow> Some ps)"
    using renderAll_sequence [OF dI, of "[]" dotSize ?F offset drawer]
    by (simp cong: option.case_cong)
  have "drawComponents dotSize m offset drawer =
      (case sequence (map ?A ?ids) of None \<Rightarrow> None
       | Some ps \<Rightarrow> emitAll dotSize ?F offset drawer ?B ?H ps)"
    unfolding drawComponents_def Let_def ra holes_registered(1) [OF sq]
    by (simp split: option.splits)
  also have "\<dots> = (case sequence (map ?A ?ids) of None \<Rightarrow> None
       | Some ps \<Rightarrow> sequence (map ?E ps))"
    unfolding emitAll_sequence ..
  also have "\<dots> = sequence (map (\<lambda>x. case ?A x of None \<Rightarrow> None | Some y \<Rightarrow> ?E y) ?ids)"
    by (rule sequence_bind)
  also have "\<dots> = sequence (map (composedPath dotSize ?F offset drawer ?B) ?ids)"
  proof (rule sequence_cong)
    fix x assume "x \<in> set ?ids"
    let ?hs = "holesOf ?F ?B (fst x)"
    have look: "(case map_of ?B (fst hole) of None \<Rightarrow> None
          | Some start \<Rightarrow> renderComponentToPath dotSize (fst x) ?F offset
              (fst start - 1, snd start - 1) drawer True) =
        renderComponentToPath dotSize (fst x) ?F offset
          (fst (snd hole) - 1, snd (snd hole) - 1) drawer True"
      if "hole \<in> set ?hs" for hole
    proof -
      from that have "(fst hole, snd hole) \<in> set ?B" by (simp add: holesOf_def)
      with dB have "map_of ?B (fst hole) = Some (snd hole)" by (rule map_of_is_SomeI)
      then show ?thesis by simp
    qed
    have m: "map (\<lambda>b. case map_of ?B b of None \<Rightarrow> None
          | Some start \<Rightarrow> renderComponentToPath dotSize (fst x) ?F offset
              (fst start - 1, snd start - 1) drawer True) (map fst ?hs) =
        map (\<lambda>hole. renderComponentToPath dotSize (fst x) ?F offset
          (fst (snd hole) - 1, snd (snd hole) - 1) drawer True) ?hs"
      unfolding map_map comp_def using look by (rule map_cong [OF refl])
    have ap: "appendHoles dotSize ?F offset drawer ?B (fst x)
           (case map_of ?H (fst x) of None \<Rightarrow> [] | Some a \<Rightarrow> a) own =
        (case sequence (map (\<lambda>hole. renderComponentToPath dotSize (fst x) ?F offset
              (fst (snd hole) - 1, snd (snd hole) - 1) drawer True) ?hs) of
           None \<Rightarrow> None
         | Some contours \<Rightarrow> Some (own @ concat contours))" for own
      unfolding appendHoles_sequence holes_registered(2) [OF sq] m ..
    show "(case ?A x of None \<Rightarrow> None | Some y \<Rightarrow> ?E y) =
        composedPath dotSize ?F offset drawer ?B x"
    proof (cases "renderComponentToPath dotSize (fst x) ?F offset (snd x) drawer False")
      case None
      then show ?thesis by (simp add: composedPath_def)
    next
      case (Some own)
      then show ?thesis
        unfolding composedPath_def by (simp add: ap split: option.splits)
    qed
  qed
  finally show ?thesis .
qed

text \<open>
  C6: the compositor on a square mask. The map of holes that the source builds holds,
  for every foreground id, exactly the background components whose id is greater than 1
  and whose start has that foreground id on its left, in the order of the registry; and
  the paths that the source emits are, for every foreground component in the order of
  its registry, its own contour followed by the contours of these holes, each traced
  from the start of the hole moved one cell up and one cell to the left with the flag
  \<^verbatim>\<open>moveRight\<close>. A background component that fails the test occurs in no path. Both
  sides are undefined together, when a contour walk does not end.
\<close>

theorem C6_holes_join_their_foreground_component:
  assumes "square dotsMask n"
  shows
    "(\<exists>holes.
        registerHoles (fst (buildConnectedComponents dotsMask False 4))
          (snd (buildConnectedComponents dotsMask True 8)) [] = Some holes \<and>
        (\<forall>i. (case map_of holes i of None \<Rightarrow> [] | Some backgroundPaths \<Rightarrow> backgroundPaths) =
             map fst (holesOf (fst (buildConnectedComponents dotsMask False 4))
                        (snd (buildConnectedComponents dotsMask True 8)) i))) \<and>
     drawComponents dotSize dotsMask offset drawer =
       sequence (map (composedPath dotSize (fst (buildConnectedComponents dotsMask False 4))
                        offset drawer (snd (buildConnectedComponents dotsMask True 8)))
                   (snd (buildConnectedComponents dotsMask False 4)))"
  using holes_registered [OF assms] drawComponents_composed [OF assms] by blast

theorem C6_holes_join_their_foreground_component_witness:
  "square [[True, True, True, False], [True, False, True, False], [True, True, True, False],
           [False, False, False, False]] 4 \<and>
   snd (buildConnectedComponents [[True, True, True, False], [True, False, True, False],
       [True, True, True, False], [False, False, False, False]] True 8) =
     [(1, (0, 3)), (2, (1, 1))] \<and>
   \<not> isHole (fst (buildConnectedComponents [[True, True, True, False],
       [True, False, True, False], [True, True, True, False], [False, False, False, False]]
       False 4)) (1, (0, 3)) \<and>
   holesOf (fst (buildConnectedComponents [[True, True, True, False],
       [True, False, True, False], [True, True, True, False], [False, False, False, False]]
       False 4)) [(1, (0, 3)), (2, (1, 1))] 2 = [(2, (1, 1))] \<and>
   sequence (map (composedPath 4 (fst (buildConnectedComponents [[True, True, True, False],
         [True, False, True, False], [True, True, True, False], [False, False, False, False]]
         False 4)) (0, 0) (drawerFactory Square 4)
       (snd (buildConnectedComponents [[True, True, True, False], [True, False, True, False],
         [True, True, True, False], [False, False, False, False]] True 8)))
     (snd (buildConnectedComponents [[True, True, True, False], [True, False, True, False],
       [True, True, True, False], [False, False, False, False]] False 4))) =
     Some [(2, [MoveTo 0 0, MoveBy 4 0, Hor (- 4), Ver 4, Ver 4, Ver 4, Hor 4, Hor 4, Hor 4,
                Ver (- 4), Ver (- 4), Ver (- 4), Hor (- 4), Hor (- 4),
                MoveTo 0 0, MoveBy 4 4, Hor 4, Ver 4, Hor (- 4), Ver (- 4)])]"
proof -
  let ?m = "[[True, True, True, False], [True, False, True, False], [True, True, True, False],
           [False, False, False, False]]"
  have sq: "square ?m 4" by (simp add: square_def)
  have bg: "snd (buildConnectedComponents ?m True 8) = [(1, (0, 3)), (2, (1, 1))]"
    by code_simp
  have nh: "\<not> isHole (fst (buildConnectedComponents ?m False 4)) (1, (0, 3))"
    by (simp add: isHole_def)
  have ho: "holesOf (fst (buildConnectedComponents ?m False 4)) [(1, (0, 3)), (2, (1, 1))] 2 =
      [(2, (1, 1))]"
    by code_simp
  have ev: "drawComponents 4 ?m (0, 0) (drawerFactory Square 4) =
     Some [(2, [MoveTo 0 0, MoveBy 4 0, Hor (- 4), Ver 4, Ver 4, Ver 4, Hor 4, Hor 4, Hor 4,
                Ver (- 4), Ver (- 4), Ver (- 4), Hor (- 4), Hor (- 4),
                MoveTo 0 0, MoveBy 4 4, Hor 4, Ver 4, Hor (- 4), Ver (- 4)])]"
    by code_simp
  note T = C6_holes_join_their_foreground_component [OF sq, THEN conjunct2,
      of 4 "(0, 0)" "drawerFactory Square 4"]
  from sq bg nh ho ev [unfolded T] show ?thesis by blast
qed

end
